theory Spec2Isabelle
  imports Main
begin

section \<open>JavaScript values\<close>

text \<open>
  The transformers work on untyped JSON trees.  A tree is modelled as it is in the
  program: an object is the list of its own properties in enumeration order (keys are
  distinct), an array is a list.  A number is represented by its canonical decimal
  rendering, the text that JavaScript's \<open>String\<close> prints for it (\<open>''1''\<close>,
  \<open>''0.5''\<close>); the code only converts numbers to text and tests them for
  truthiness, and both are functions of the rendering.  Strings are lists of
  characters, assumed to be ASCII text.  The value \<open>undefined\<close> never occurs inside
  a JSON tree; where the code can meet it (a missing property, a missing argument) the
  model uses \<open>None\<close> of an option type.
\<close>

datatype json =
    JNull
  | JBool bool
  | JNum string
  | JStr string
  | JArr "json list"
  | JObj "(string \<times> json) list"

text \<open>
  The exceptions the modelled code can raise.  \<open>OutOfFuel\<close> is not one of them: it
  is the answer of a fuel-bounded model function (\<open>mergeAllOf\<close>,
  \<open>flattenAnyOfOneOf\<close>) that was given too little fuel for its input.
\<close>

datatype error = TypeError | OutOfFuel

text \<open>Truthiness, as \<open>if (v)\<close>, \<open>!v\<close>, \<open>a || b\<close> and \<open>a && b\<close> test it.\<close>

fun truthy :: "json \<Rightarrow> bool" where
  "truthy JNull = False"
| "truthy (JBool b) = b"
| "truthy (JNum r) = (r \<noteq> ''0'' \<and> r \<noteq> ''NaN'')"
| "truthy (JStr s) = (s \<noteq> [])"
| "truthy (JArr xs) = True"
| "truthy (JObj kvs) = True"

fun truthy_opt :: "json option \<Rightarrow> bool" where
  "truthy_opt None = False"
| "truthy_opt (Some v) = truthy v"

section \<open>Finish reasons\<close>

text \<open>
  \<open>mapFinishReason\<close> of \<open>gemini-to-openai.ts\<close> (the single-shot transformer).  The
  argument is \<open>candidate?.finishReason\<close>: any JSON value, or \<open>undefined\<close>.  The
  \<open>switch\<close> compares with \<open>===\<close>, so only the five strings match.
\<close>

fun mapFinishReason_single :: "json option \<Rightarrow> string option" where
  "mapFinishReason_single (Some (JStr s)) =
     (if s = ''STOP'' then Some ''stop''
      else if s = ''MAX_TOKENS'' then Some ''length''
      else if s = ''SAFETY'' then Some ''content_filter''
      else if s = ''RECITATION'' then Some ''content_filter''
      else if s = ''OTHER'' then Some ''stop''
      else Some ''stop'')"
| "mapFinishReason_single _ = Some ''stop''"

text \<open>
  \<open>mapFinishReason\<close> of the streaming transformer: the same table, but the
  \<open>default\<close> branch returns \<open>null\<close> (here \<open>None\<close>).
\<close>

fun mapFinishReason_stream :: "json option \<Rightarrow> string option" where
  "mapFinishReason_stream (Some (JStr s)) =
     (if s = ''STOP'' then Some ''stop''
      else if s = ''MAX_TOKENS'' then Some ''length''
      else if s = ''SAFETY'' then Some ''content_filter''
      else if s = ''RECITATION'' then Some ''content_filter''
      else if s = ''OTHER'' then Some ''stop''
      else None)"
| "mapFinishReason_stream _ = None"

definition known_reasons :: "json option set" where
  "known_reasons =
     {Some (JStr ''STOP''), Some (JStr ''MAX_TOKENS''), Some (JStr ''SAFETY''),
      Some (JStr ''RECITATION''), Some (JStr ''OTHER'')}"

section \<open>Server-sent events\<close>

text \<open>
  \<open>SSEParsedEvent\<close>: every field is optional while the event is being assembled
  (\<open>Partial<SSEParsedEvent>\<close>).  The field \<open>retry\<close> is declared but never
  assigned by the parser and is left out.
\<close>

record SSEParsedEvent =
  ev_event :: "string option"
  ev_data :: "string option"
  ev_id :: "string option"

definition empty_event :: SSEParsedEvent where
  "empty_event = \<lparr>ev_event = None, ev_data = None, ev_id = None\<rparr>"

text \<open>White space as \<open>trim\<close> and \<open>trimStart\<close> see it, on ASCII text.\<close>

definition is_space :: "char \<Rightarrow> bool" where
  "is_space c = (c \<in> {CHR 0x09, CHR 0x0A, CHR 0x0B, CHR 0x0C, CHR 0x0D, CHR '' ''})"

definition trimStart :: "string \<Rightarrow> string" where
  "trimStart s = dropWhile is_space s"

definition trim :: "string \<Rightarrow> string" where
  "trim s = rev (dropWhile is_space (rev (dropWhile is_space s)))"

text \<open>
  \<open>chunk.split(/\r?\n/)\<close>: a line feed ends a line, and a carriage return right
  before it belongs to the separator.  A carriage return elsewhere stays in the line.
  The first argument collects the current line, reversed.
\<close>

fun split_lines :: "string \<Rightarrow> string \<Rightarrow> string list" where
  "split_lines cur [] = [rev cur]"
| "split_lines cur (c # cs) =
     (if c = CHR 0x0A then rev cur # split_lines [] cs
      else if c = CHR 0x0D \<and> cs \<noteq> [] \<and> hd cs = CHR 0x0A then rev cur # split_lines [] (tl cs)
      else split_lines (c # cur) cs)"

text \<open>\<open>if (currentEvent.data)\<close>: the field is present and not the empty string.\<close>

definition has_data :: "SSEParsedEvent \<Rightarrow> bool" where
  "has_data e = (case ev_data e of None \<Rightarrow> False | Some d \<Rightarrow> d \<noteq> [])"

text \<open>
  The loop over the lines, with the list \<open>events\<close> and the event under
  construction as its state; the end of the list is the code after the loop.
\<close>

fun parse_lines :: "string list \<Rightarrow> SSEParsedEvent list \<Rightarrow> SSEParsedEvent \<Rightarrow> SSEParsedEvent list" where
  "parse_lines [] events cur = (if has_data cur then events @ [cur] else events)"
| "parse_lines (line # rest) events cur =
     (if trim line = [] then
        parse_lines rest (if has_data cur then events @ [cur] else events) empty_event
      else if CHR '':'' \<notin> set line then parse_lines rest events cur
      else
        let field = trim (takeWhile (\<lambda>c. c \<noteq> CHR '':'') line);
            val = trimStart (tl (dropWhile (\<lambda>c. c \<noteq> CHR '':'') line))
        in if field = ''data'' then
             parse_lines rest events
               (cur\<lparr>ev_data := Some ((if has_data cur then the (ev_data cur) @ [CHR 0x0A] else []) @ val)\<rparr>)
           else if field = ''event'' then parse_lines rest events (cur\<lparr>ev_event := Some val\<rparr>)
           else if field = ''id'' then parse_lines rest events (cur\<lparr>ev_id := Some val\<rparr>)
           else parse_lines rest events cur)"

definition parseSSEChunk :: "string \<Rightarrow> SSEParsedEvent list" where
  "parseSSEChunk chunk = parse_lines (split_lines [] chunk) [] empty_event"

text \<open>
  What a line adds to the \<open>data\<close> field of the event under construction: nothing
  (\<open>None\<close>) for a blank line, a line without a colon and a line of another field.
\<close>

definition data_value :: "string \<Rightarrow> string option" where
  "data_value line =
     (if trim line = [] \<or> CHR '':'' \<notin> set line then None
      else if trim (takeWhile (\<lambda>c. c \<noteq> CHR '':'') line) = ''data''
        then Some (trimStart (tl (dropWhile (\<lambda>c. c \<noteq> CHR '':'') line)))
      else None)"

section \<open>Reading JSON values\<close>

text \<open>Decimal rendering of a natural number, as a template literal prints it.\<close>

fun show_nat :: "nat \<Rightarrow> string" where
  "show_nat n =
     (if n < 10 then [char_of (48 + n)] else show_nat (n div 10) @ [char_of (48 + n mod 10)])"

declare show_nat.simps [simp del]

text \<open>
  \<open>v.k\<close> for a value \<open>v\<close> that is not \<open>null\<close>: an object answers with its own
  property, everything else with \<open>undefined\<close>.  None of the names the code reads
  (\<open>response\<close>, \<open>candidates\<close>, \<open>content\<close>, \<open>parts\<close>, \<open>text\<close>, \<open>description\<close>,
  \<open>properties\<close>, ...) is a member of a string, a number, a boolean, an array or of
  \<open>Object.prototype\<close>.
\<close>

fun js_prop :: "json \<Rightarrow> string \<Rightarrow> json option" where
  "js_prop (JObj kvs) k = map_of kvs k"
| "js_prop _ k = None"

text \<open>\<open>v.k\<close> for any value: reading a property of \<open>null\<close> raises a TypeError.\<close>

definition js_get :: "json \<Rightarrow> string \<Rightarrow> error + json option" where
  "js_get v k = (if v = JNull then Inl TypeError else Inr (js_prop v k))"


text \<open>
  \<open>for (const x of v)\<close>: an array yields its elements, a string its characters;
  every other value is not iterable and the loop raises a TypeError.
\<close>

fun iterate :: "json \<Rightarrow> error + json list" where
  "iterate (JArr xs) = Inr xs"
| "iterate (JStr s) = Inr (map (\<lambda>c. JStr [c]) s)"
| "iterate _ = Inl TypeError"

section \<open>The streaming transformer\<close>

text \<open>
  What the transformer takes from its host: \<open>JSON.parse\<close> (\<open>None\<close> when it throws
  a SyntaxError), \<open>JSON.stringify\<close>, and the clock, through the template
  \<open>call_${Date.now()}_${i}\<close> that names the \<open>i\<close>-th tool call.
\<close>

record host =
  JSON_parse :: "string \<Rightarrow> json option"
  JSON_stringify :: "json \<Rightarrow> string"
  call_id :: "nat \<Rightarrow> string"

record tool_call_delta =
  tc_index :: nat
  tc_id :: string
  tc_type :: string
  tc_name :: "json option"
  tc_arguments :: "string option"

record chunk_delta =
  role :: "string option"
  content :: "json option"
  tool_calls :: "tool_call_delta list option"

text \<open>
  \<open>OpenAIStreamChunk\<close>.  The list \<open>choices\<close> always has exactly one entry, with
  index 0; its \<open>delta\<close> and \<open>finish_reason\<close> are fields of the record here.
\<close>

record OpenAIStreamChunk =
  chunk_id :: string
  chunk_object :: string
  chunk_created :: nat
  chunk_model :: string
  delta :: chunk_delta
  finish_reason :: "string option"

record TransformState =
  st_id :: string
  st_created :: nat
  st_model :: string
  hasEmittedRole :: bool
  toolCallIndex :: nat
  lastThoughtSignature :: "json option"


definition mk_chunk :: "TransformState \<Rightarrow> chunk_delta \<Rightarrow> string option \<Rightarrow> OpenAIStreamChunk" where
  "mk_chunk st d fr =
     \<lparr>chunk_id = st_id st, chunk_object = ''chat.completion.chunk'',
      chunk_created = st_created st, chunk_model = st_model st, delta = d, finish_reason = fr\<rparr>"

definition role_chunk :: "TransformState \<Rightarrow> OpenAIStreamChunk" where
  "role_chunk st =
     mk_chunk st \<lparr>role = Some ''assistant'', content = Some (JStr []), tool_calls = None\<rparr> None"

definition content_chunk :: "TransformState \<Rightarrow> json \<Rightarrow> OpenAIStreamChunk" where
  "content_chunk st txt = mk_chunk st \<lparr>role = None, content = Some txt, tool_calls = None\<rparr> None"

definition tool_chunk :: "host \<Rightarrow> TransformState \<Rightarrow> json \<Rightarrow> OpenAIStreamChunk" where
  "tool_chunk h st fc =
     mk_chunk st
       \<lparr>role = None, content = None,
        tool_calls = Some [\<lparr>tc_index = toolCallIndex st, tc_id = call_id h (toolCallIndex st),
          tc_type = ''function'', tc_name = js_prop fc ''name'',
          tc_arguments = map_option (JSON_stringify h) (js_prop fc ''args'')\<rparr>]\<rparr>
       None"

definition finish_chunk :: "TransformState \<Rightarrow> string option \<Rightarrow> OpenAIStreamChunk" where
  "finish_chunk st fr = mk_chunk st \<lparr>role = None, content = None, tool_calls = None\<rparr> fr"










text \<open>The chunk kinds the claims speak about.\<close>

definition is_role_chunk :: "OpenAIStreamChunk \<Rightarrow> bool" where
  "is_role_chunk c = (role (delta c) = Some ''assistant'' \<and> content (delta c) = Some (JStr []))"

text \<open>
  A host for the examples: \<open>JSON.parse\<close> restricted to the three texts the examples
  use (every other text is taken as unparseable).
\<close>

definition example_host :: host where
  "example_host =
     \<lparr>JSON_parse = (\<lambda>s.
        if s = ''{\"candidates\":[{\"content\":{\"parts\":[{\"text\":\"hi\"}]},\"finishReason\":\"STOP\"}]}''
        then Some (JObj [(''candidates'', JArr [JObj
               [(''content'', JObj [(''parts'', JArr [JObj [(''text'', JStr ''hi'')]])]),
                (''finishReason'', JStr ''STOP'')]])])
        else if s = ''{\"candidates\":[]}'' then Some (JObj [(''candidates'', JArr [])])
        else if s = ''{\"candidates\":[{\"content\":{\"parts\":[null]}}]}''
        then Some (JObj [(''candidates'', JArr [JObj
               [(''content'', JObj [(''parts'', JArr [JNull])])]])])
        else None),
      JSON_stringify = (\<lambda>v. ''{}''),
      call_id = (\<lambda>i. ''call_1234_'' @ show_nat i)\<rparr>"

section \<open>The schema cleaner\<close>

text \<open>
  \<open>schema-cleaner.ts\<close>.  The model follows the file: the tables of keywords, the helper
  \<open>appendDescriptionHint\<close>, the twelve phases and the entry point \<open>cleanSchema\<close>.  A
  phase that rewrites a node at its top level and then recurses into the values of the
  rewritten node is modelled in two parts: a function \<open>..._node\<close> for the top-level
  rewriting, and the recursion.  The subsections are ordered by what the termination
  proofs need, not by the order of the phases:

    \<^item> phases 1a to 1e, 2c and 3b (\<open>convertRefsToHints\<close>, \<open>convertConstToEnum\<close>,
      \<open>addEnumHints\<close>, \<open>addAdditionalPropertiesHints\<close>, \<open>moveConstraintsToDescription\<close>,
      \<open>flattenTypeArrays\<close>, \<open>cleanupRequiredFields\<close>);
    \<^item> phase 4 (\<open>addEmptySchemaPlaceholder\<close>), phase 3a (\<open>removeUnsupportedKeywords\<close>) and
      phase 5 (\<open>toGeminiFormat\<close>);
    \<^item> phase 2a (\<open>mergeAllOf\<close>) and phase 2b (\<open>flattenAnyOfOneOf\<close>, with
      \<open>scoreSchemaOption\<close> and \<open>tryMergeEnumFromUnion\<close>);
    \<^item> \<open>cleanSchema\<close>.

  The argument of \<open>cleanSchema\<close> is a JSON tree as \<open>JSON.parse\<close> builds it: every
  object has the prototype \<open>Object.prototype\<close>, every array \<open>Array.prototype\<close>, and no
  value occurs at two places of the tree.
\<close>

subsection \<open>Objects, strings and conversions\<close>

text \<open>
  \<open>typeof v === "object" && v !== null\<close>: arrays and objects.
\<close>

definition is_object :: "json \<Rightarrow> bool" where
  "is_object v = (case v of JArr _ \<Rightarrow> True | JObj _ \<Rightarrow> True | _ \<Rightarrow> False)"

text \<open>
  \<open>result[k] = v\<close> on the property list of an object that has the property \<open>k\<close> or
  whose key \<open>k\<close> is a literal of the code: an existing property keeps its place, a new
  one goes to the end.  (JavaScript enumerates property names that are array indices
  before all others; the model keeps insertion order for every name.)
  \<open>delete result[k]\<close> is \<open>obj_del\<close>.
\<close>

fun obj_set :: "string \<Rightarrow> json \<Rightarrow> (string \<times> json) list \<Rightarrow> (string \<times> json) list" where
  "obj_set k v [] = [(k, v)]"
| "obj_set k v ((k', v') # kvs) =
     (if k' = k then (k, v) # kvs else (k', v') # obj_set k v kvs)"

definition obj_del :: "string \<Rightarrow> (string \<times> json) list \<Rightarrow> (string \<times> json) list" where
  "obj_del k kvs = filter (\<lambda>kv. fst kv \<noteq> k) kvs"

text \<open>
  \<open>Object.entries(v)\<close>, which is also what the spread \<open>{...v}\<close> copies: the
  properties of an object, the indexed elements of an array, the indexed characters of
  a string, nothing for the other primitives.  \<open>spread a b\<close> is \<open>{...a, ...b}\<close>
  on property lists.  A spread defines its properties, so a property named
  \<open>__proto__\<close> is copied like every other.
\<close>

fun own_entries :: "json \<Rightarrow> (string \<times> json) list" where
  "own_entries (JObj kvs) = kvs"
| "own_entries (JArr xs) = zip (map show_nat [0..<length xs]) xs"
| "own_entries (JStr s) = zip (map show_nat [0..<length s]) (map (\<lambda>c. JStr [c]) s)"
| "own_entries _ = []"

definition spread :: "(string \<times> json) list \<Rightarrow> (string \<times> json) list \<Rightarrow> (string \<times> json) list" where
  "spread a b = foldl (\<lambda>acc kv. obj_set (fst kv) (snd kv) acc) a b"

text \<open>
  \<open>s.includes(sub)\<close>.
\<close>

fun includes_str :: "string \<Rightarrow> string \<Rightarrow> bool" where
  "includes_str [] sub = (sub = [])"
| "includes_str (c # s) sub = (take (length sub) (c # s) = sub \<or> includes_str s sub)"

text \<open>
  The conversion of a value to a string: \<open>String(v)\<close>, a value inside a template
  literal, an element of \<open>Array.prototype.join\<close>, and the key passed to
  \<open>hasOwnProperty\<close>.  An array prints as its elements joined with commas, \<open>null\<close>
  elements as the empty string.  An object prints as \<open>[object Object]\<close> through
  \<open>Object.prototype.toString\<close>; but an object that has an own property named
  \<open>toString\<close> hides that method behind a JSON value, which cannot be called, and the
  conversion raises a TypeError (\<open>Object.prototype.valueOf\<close> returns the object, not a
  primitive).  \<open>printable v\<close> says that the conversion of \<open>v\<close> returns, \<open>text_of v\<close>
  is the text it returns then, and \<open>js_String\<close> is the conversion.
\<close>

fun join_with :: "string \<Rightarrow> string list \<Rightarrow> string" where
  "join_with sep [] = []"
| "join_with sep [s] = s"
| "join_with sep (s # t # ss) = s @ sep @ join_with sep (t # ss)"

fun text_of :: "json \<Rightarrow> string" where
  "text_of JNull = ''null''"
| "text_of (JBool b) = (if b then ''true'' else ''false'')"
| "text_of (JNum r) = r"
| "text_of (JStr s) = s"
| "text_of (JArr xs) = join_with '','' (map (\<lambda>x. if x = JNull then [] else text_of x) xs)"
| "text_of (JObj kvs) = ''[object Object]''"

fun printable :: "json \<Rightarrow> bool" where
  "printable (JArr xs) = (\<forall>x \<in> set xs. printable x)"
| "printable (JObj kvs) = (''toString'' \<notin> set (map fst kvs))"
| "printable _ = True"

definition js_String :: "json \<Rightarrow> error + string" where
  "js_String v = (if printable v then Inr (text_of v) else Inl TypeError)"

text \<open>\<open>xs.join(sep)\<close>.\<close>

definition js_join :: "string \<Rightarrow> json list \<Rightarrow> error + string" where
  "js_join sep xs =
     (if \<forall>x \<in> set xs. printable x
      then Inr (join_with sep (map (\<lambda>x. if x = JNull then [] else text_of x) xs))
      else Inl TypeError)"

subsection \<open>Exceptions\<close>

text \<open>
  \<open>mapE\<close> maps a function that can raise over a list and stops at the first
  exception; \<open>foldE\<close> is the loop that threads a value through such a function;
  \<open>bindE\<close> passes the result of a step that has returned to the next step.
\<close>

fun mapE :: "('a \<Rightarrow> error + 'b) \<Rightarrow> 'a list \<Rightarrow> error + 'b list" where
  "mapE f [] = Inr []"
| "mapE f (x # xs) =
     (case f x of
        Inl e \<Rightarrow> Inl e
      | Inr y \<Rightarrow> (case mapE f xs of Inl e \<Rightarrow> Inl e | Inr ys \<Rightarrow> Inr (y # ys)))"

fun foldE :: "('a \<Rightarrow> 'b \<Rightarrow> error + 'a) \<Rightarrow> 'a \<Rightarrow> 'b list \<Rightarrow> error + 'a" where
  "foldE f a [] = Inr a"
| "foldE f a (x # xs) = (case f a x of Inl e \<Rightarrow> Inl e | Inr a' \<Rightarrow> foldE f a' xs)"

definition bindE :: "error + 'a \<Rightarrow> ('a \<Rightarrow> error + 'b) \<Rightarrow> error + 'b" where
  "bindE m f = (case m of Inl e \<Rightarrow> Inl e | Inr x \<Rightarrow> f x)"

text \<open>
  The two loops that every phase ends with.  \<open>walk_array rec xs\<close> is
  \<open>schema.map(rec)\<close>.  \<open>walk_values rec kvs\<close> is the loop
  \<open>for (const [key, value] of Object.entries(result))\<close> that replaces each value that
  is an object or an array by the result of the recursive call, on the property list
  \<open>kvs\<close> of \<open>result\<close>.
\<close>

definition walk_values ::
  "(json \<Rightarrow> error + json) \<Rightarrow> (string \<times> json) list \<Rightarrow> error + json" where
  "walk_values rec kvs =
     (case mapE (\<lambda>(k, v). if is_object v
                            then (case rec v of Inl e \<Rightarrow> Inl e | Inr v' \<Rightarrow> Inr (k, v'))
                            else Inr (k, v)) kvs of
        Inl e \<Rightarrow> Inl e
      | Inr kvs' \<Rightarrow> Inr (JObj kvs'))"

definition walk_array :: "(json \<Rightarrow> error + json) \<Rightarrow> json list \<Rightarrow> error + json" where
  "walk_array rec xs = (case mapE rec xs of Inl e \<Rightarrow> Inl e | Inr ys \<Rightarrow> Inr (JArr ys))"

lemma mapE_cong [fundef_cong]:
  assumes "xs = ys" and "\<And>x. x \<in> set ys \<Longrightarrow> f x = g x"
  shows "mapE f xs = mapE g ys"
proof -
  have "mapE f ys = mapE g ys"
    using assms(2) by (induction ys) (auto split: sum.splits)
  with assms(1) show ?thesis by simp
qed

lemma walk_array_cong [fundef_cong]:
  "xs = ys \<Longrightarrow> (\<And>x. x \<in> set ys \<Longrightarrow> f x = g x) \<Longrightarrow> walk_array f xs = walk_array g ys"
  unfolding walk_array_def using mapE_cong[of xs ys f g] by simp

lemma walk_values_cong [fundef_cong]:
  assumes "kvs = kvs'" and "\<And>k v. (k, v) \<in> set kvs' \<Longrightarrow> is_object v \<Longrightarrow> f v = g v"
  shows "walk_values f kvs = walk_values g kvs'"
proof -
  have "mapE (\<lambda>(k, v). if is_object v
                            then (case f v of Inl e \<Rightarrow> Inl e | Inr v' \<Rightarrow> Inr (k, v'))
                            else Inr (k, v)) kvs =
        mapE (\<lambda>(k, v). if is_object v
                            then (case g v of Inl e \<Rightarrow> Inl e | Inr v' \<Rightarrow> Inr (k, v'))
                            else Inr (k, v)) kvs'"
    using assms by (intro mapE_cong) auto
  then show ?thesis by (simp add: walk_values_def)
qed

subsection \<open>Phase 1: hints\<close>

text \<open>
  \<open>appendDescriptionHint\<close>: the hint is appended in parentheses unless the
  description already contains it.  Reading \<open>schema.description\<close> raises a TypeError
  when the schema is \<open>null\<close>.
\<close>

definition appendDescriptionHint :: "json \<Rightarrow> string \<Rightarrow> error + json" where
  "appendDescriptionHint schema hint =
     (if schema = JNull then Inl TypeError
      else
        let currentDesc = (case js_prop schema ''description'' of Some (JStr d) \<Rightarrow> d | _ \<Rightarrow> []);
            formattedHint = ''('' @ hint @ '')''
        in if includes_str currentDesc formattedHint then Inr schema
           else Inr (JObj (obj_set ''description''
                  (JStr (if currentDesc \<noteq> [] then currentDesc @ '' '' @ formattedHint else formattedHint))
                  (own_entries schema))))"

text \<open>
  \<open>r.split("/").pop()\<close> is the text after the last slash; \<open>or_default v d\<close> is
  \<open>v || d\<close> for a property \<open>v\<close> that may be missing.
\<close>

definition last_segment :: "string \<Rightarrow> string" where
  "last_segment s = rev (takeWhile (\<lambda>c. c \<noteq> CHR ''/'') (rev s))"

definition or_default :: "json option \<Rightarrow> json \<Rightarrow> json" where
  "or_default v d = (case v of None \<Rightarrow> d | Some x \<Rightarrow> if truthy x then x else d)"

text \<open>
  Every phase has the same shape: primitives are returned, an array is mapped, and an
  object is first rewritten at its top level and then each of its values that is an
  object or an array is replaced by the result of the recursive call.  The top-level
  rewriting of each phase is a function \<open>..._node\<close> on the property list of the copy
  \<open>{...schema}\<close>; the recursion follows after the lemmas that its termination needs.

  Phase 1a, \<open>convertRefsToHints\<close>.
\<close>

definition refs_node :: "(string \<times> json) list \<Rightarrow> error + json" where
  "refs_node kvs =
     (case map_of kvs ''$ref'' of
        Some (JStr r) \<Rightarrow>
          let refName = (if last_segment r = [] then ''ref'' else last_segment r);
              res1 = obj_del ''$ref'' kvs;
              res2 = obj_set ''type'' (or_default (map_of res1 ''type'') (JStr ''object'')) res1
          in appendDescriptionHint (JObj res2) (''See: '' @ refName)
      | _ \<Rightarrow> Inr (JObj kvs))"

text \<open>
  Phase 1b, \<open>convertConstToEnum\<close>: \<open>result.const !== undefined\<close> holds when the
  property is present.
\<close>

definition const_node :: "(string \<times> json) list \<Rightarrow> error + json" where
  "const_node kvs =
     (case map_of kvs ''const'' of
        Some c \<Rightarrow>
          (case js_String c of
             Inl e \<Rightarrow> Inl e
           | Inr txt \<Rightarrow>
               let res1 = obj_set ''enum'' (JArr [JStr txt]) kvs;
                   res2 = obj_set ''type'' (or_default (map_of res1 ''type'') (JStr ''string'')) res1
               in Inr (JObj (obj_del ''const'' res2)))
      | None \<Rightarrow> Inr (JObj kvs))"

text \<open>
  Phase 1c, \<open>addEnumHints\<close>.
\<close>

definition enum_node :: "(string \<times> json) list \<Rightarrow> error + json" where
  "enum_node kvs =
     (case map_of kvs ''enum'' of
        Some (JArr vs) \<Rightarrow>
          if vs \<noteq> [] then
            (case js_join '', '' (take 10 vs) of
               Inl e \<Rightarrow> Inl e
             | Inr vals \<Rightarrow>
                 appendDescriptionHint (JObj kvs)
                   (''Allowed: '' @ vals @ (if length vs > 10 then '', ...'' else [])))
          else Inr (JObj kvs)
      | _ \<Rightarrow> Inr (JObj kvs))"

text \<open>
  Phase 1d, \<open>addAdditionalPropertiesHints\<close>.
\<close>

definition additionalProperties_node :: "(string \<times> json) list \<Rightarrow> error + json" where
  "additionalProperties_node kvs =
     (if map_of kvs ''additionalProperties'' = Some (JBool False)
      then appendDescriptionHint (JObj kvs) ''no extra properties''
      else Inr (JObj kvs))"

text \<open>
  Phase 1e, \<open>moveConstraintsToDescription\<close>: one step per constraint keyword, in
  the order of the table.
\<close>

definition UNSUPPORTED_CONSTRAINTS :: "string list" where
  "UNSUPPORTED_CONSTRAINTS =
     [''minLength'', ''maxLength'', ''minimum'', ''maximum'', ''exclusiveMinimum'',
      ''exclusiveMaximum'', ''multipleOf'', ''minItems'', ''maxItems'', ''uniqueItems'',
      ''minProperties'', ''maxProperties'', ''pattern'', ''format'']"

definition constraint_step :: "json \<Rightarrow> string \<Rightarrow> error + json" where
  "constraint_step result constraint =
     (case js_prop result constraint of
        Some v \<Rightarrow>
          (case js_String v of
             Inl e \<Rightarrow> Inl e
           | Inr txt \<Rightarrow> appendDescriptionHint result (constraint @ '': '' @ txt))
      | None \<Rightarrow> Inr result)"

definition constraints_node :: "(string \<times> json) list \<Rightarrow> error + json" where
  "constraints_node kvs = foldE constraint_step (JObj kvs) UNSUPPORTED_CONSTRAINTS"

text \<open>
  Phase 2c, \<open>flattenTypeArrays\<close>.
\<close>

definition typeArray_node :: "(string \<times> json) list \<Rightarrow> error + json" where
  "typeArray_node kvs =
     (case map_of kvs ''type'' of
        Some (JArr types) \<Rightarrow>
          let hasNull = (JStr ''null'' \<in> set types);
              nonNullTypes = filter (\<lambda>t. t \<noteq> JStr ''null'' \<and> truthy t) types;
              res1 = JObj (obj_set ''type''
                       (case nonNullTypes of [] \<Rightarrow> JStr ''string'' | t # _ \<Rightarrow> t) kvs)
          in (case (if length nonNullTypes > 1
                    then (case js_join '' | '' nonNullTypes of
                            Inl e \<Rightarrow> Inl e
                          | Inr names \<Rightarrow> appendDescriptionHint res1 (''Accepts: '' @ names))
                    else Inr res1) of
                Inl e \<Rightarrow> Inl e
              | Inr res2 \<Rightarrow> if hasNull then appendDescriptionHint res2 ''nullable'' else Inr res2)
      | _ \<Rightarrow> Inr (JObj kvs))"

text \<open>
  Phase 3b, \<open>cleanupRequiredFields\<close>.  \<open>has_own p k\<close> is
  \<open>Object.prototype.hasOwnProperty.call(p, k)\<close> for an object or array \<open>p\<close> and a
  key \<open>k\<close> that is a string; the call converts an entry of \<open>required\<close> to a string
  first, which can raise.
\<close>

fun has_own :: "json \<Rightarrow> string \<Rightarrow> bool" where
  "has_own (JObj ps) k = (k \<in> set (map fst ps))"
| "has_own (JArr xs) k = (k = ''length'' \<or> k \<in> set (map show_nat [0..<length xs]))"
| "has_own _ k = False"

definition required_node :: "(string \<times> json) list \<Rightarrow> error + json" where
  "required_node kvs =
     (case map_of kvs ''required'' of
        Some (JArr req) \<Rightarrow>
          (case map_of kvs ''properties'' of
             Some props \<Rightarrow>
               if is_object props then
                 (case mapE js_String req of
                    Inl e \<Rightarrow> Inl e
                  | Inr names \<Rightarrow>
                      let validRequired = map fst (filter (\<lambda>(r, n). has_own props n) (zip req names))
                      in if validRequired = [] then Inr (JObj (obj_del ''required'' kvs))
                         else if length validRequired \<noteq> length req
                           then Inr (JObj (obj_set ''required'' (JArr validRequired) kvs))
                         else Inr (JObj kvs))
               else Inr (JObj kvs)
           | None \<Rightarrow> Inr (JObj kvs))
      | _ \<Rightarrow> Inr (JObj kvs))"

subsection \<open>Termination of the walks\<close>

lemma size_member: "(k, v) \<in> set kvs \<Longrightarrow> size v < size (JObj kvs)"
  by (induction kvs) auto

lemma size_elem: "x \<in> set xs \<Longrightarrow> size x < size (JArr xs)"
  by (induction xs) auto

lemma size_obj_nonempty: "kvs \<noteq> [] \<Longrightarrow> 3 \<le> size (JObj kvs)"
  by (cases kvs) auto

lemma size_filter_le: "size (JArr (filter P xs)) \<le> size (JArr xs)"
  by (induction xs) auto

lemma set_obj_set: "set (obj_set k v kvs) \<subseteq> insert (k, v) (set kvs)"
  by (induction kvs) (auto split: if_splits)

lemma set_obj_del: "set (obj_del k kvs) \<subseteq> set kvs"
  by (auto simp: obj_del_def)

text \<open>
  The entries of a rebuilt node: every value the walk recurses into (an object or an
  array) is smaller than the node the entries were built from.
\<close>

definition derived :: "(string \<times> json) list \<Rightarrow> json \<Rightarrow> bool" where
  "derived kvs r =
     (\<exists>es. r = JObj es \<and> (\<forall>(k, v) \<in> set es. is_object v \<longrightarrow> size v < size (JObj kvs)))"

lemma derived_refl: "derived kvs (JObj kvs)"
  using size_member by (fastforce simp: derived_def)

lemma derived_obj_del: "derived kvs (JObj es) \<Longrightarrow> derived kvs (JObj (obj_del k es))"
  using set_obj_del[of k es] by (auto simp: derived_def)

lemma derived_obj_set:
  "derived kvs (JObj es) \<Longrightarrow> (is_object v \<Longrightarrow> size v < size (JObj kvs)) \<Longrightarrow>
   derived kvs (JObj (obj_set k v es))"
  using set_obj_set[of k v es] by (auto simp: derived_def)

lemma not_object_simps [simp]:
  "\<not> is_object (JStr s)" "\<not> is_object (JNum r)" "\<not> is_object (JBool b)" "\<not> is_object JNull"
  "is_object (JArr xs)" "is_object (JObj kvs)"
  by (simp_all add: is_object_def)

lemma derived_hint:
  assumes d: "derived kvs r" and a: "appendDescriptionHint r hint = Inr r'"
  shows "derived kvs r'"
proof -
  from d obtain es where r: "r = JObj es" by (auto simp: derived_def)
  from a r have "r' = r \<or> (\<exists>d. r' = JObj (obj_set ''description'' (JStr d) es))"
    by (auto simp: appendDescriptionHint_def Let_def split: if_splits)
  then show ?thesis
  proof
    assume "r' = r"
    with d show ?thesis by simp
  next
    assume "\<exists>d. r' = JObj (obj_set ''description'' (JStr d) es)"
    then obtain d' where "r' = JObj (obj_set ''description'' (JStr d') es)" by blast
    with d r show ?thesis by (auto intro!: derived_obj_set)
  qed
qed

lemma derived_lookup:
  "derived kvs (JObj es) \<Longrightarrow> map_of es k = Some v \<Longrightarrow> is_object v \<Longrightarrow> size v < size (JObj kvs)"
  by (auto simp: derived_def dest!: map_of_SomeD)

lemma derived_entries:
  "derived kvs r \<Longrightarrow> (k, v) \<in> set (own_entries r) \<Longrightarrow> is_object v \<Longrightarrow> size v < size (JObj kvs)"
  by (auto simp: derived_def)

lemma derived_or_default:
  "derived kvs (JObj es) \<Longrightarrow> is_object (or_default (map_of es k) (JStr d)) \<Longrightarrow>
   size (or_default (map_of es k) (JStr d)) < size (JObj kvs)"
  by (auto simp: or_default_def split: option.splits if_splits dest: derived_lookup)

lemma derived_refs: "refs_node kvs = Inr r \<Longrightarrow> derived kvs r"
proof (cases "\<exists>ref. map_of kvs ''$ref'' = Some (JStr ref)")
  case False
  assume "refs_node kvs = Inr r"
  with False show ?thesis
    by (auto simp: refs_node_def derived_refl split: option.splits json.splits)
next
  case True
  assume a: "refs_node kvs = Inr r"
  from True obtain ref where ref: "map_of kvs ''$ref'' = Some (JStr ref)" by blast
  define res1 where "res1 = obj_del ''$ref'' kvs"
  define res2 where
    "res2 = obj_set ''type'' (or_default (map_of res1 ''type'') (JStr ''object'')) res1"
  have d1: "derived kvs (JObj res1)"
    unfolding res1_def by (intro derived_obj_del derived_refl)
  have d2: "derived kvs (JObj res2)"
    unfolding res2_def by (intro derived_obj_set d1 derived_or_default)
  from a ref have "\<exists>hint. appendDescriptionHint (JObj res2) hint = Inr r"
    by (auto simp: refs_node_def Let_def res2_def res1_def)
  with d2 show ?thesis by (auto dest: derived_hint)
qed

lemma derived_const: "const_node kvs = Inr r \<Longrightarrow> derived kvs r"
proof (cases "map_of kvs ''const''")
  case None
  assume "const_node kvs = Inr r"
  with None show ?thesis by (auto simp: const_node_def derived_refl)
next
  case (Some c)
  assume a: "const_node kvs = Inr r"
  from Some have "kvs \<noteq> []" by auto
  from size_obj_nonempty[OF this] have small: "size (JArr [JStr t]) < size (JObj kvs)" for t
    by simp
  from a Some obtain t where
    r: "r = JObj (obj_del ''const''
           (obj_set ''type'' (or_default (map_of (obj_set ''enum'' (JArr [JStr t]) kvs) ''type'') (JStr ''string''))
              (obj_set ''enum'' (JArr [JStr t]) kvs)))"
    by (auto simp: const_node_def Let_def split: sum.splits)
  show ?thesis
    unfolding r
    by (intro derived_obj_del derived_obj_set derived_refl derived_or_default small)
qed

lemma derived_enum: "enum_node kvs = Inr r \<Longrightarrow> derived kvs r"
  unfolding enum_node_def
  by (auto split: option.splits json.splits if_splits sum.splits
      intro: derived_hint[OF derived_refl] derived_refl)

lemma derived_additionalProperties: "additionalProperties_node kvs = Inr r \<Longrightarrow> derived kvs r"
  unfolding additionalProperties_node_def
  by (auto split: if_splits intro: derived_hint[OF derived_refl] derived_refl)

lemma derived_foldE_constraints:
  "derived kvs r \<Longrightarrow> foldE constraint_step r cs = Inr r' \<Longrightarrow> derived kvs r'"
proof (induction cs arbitrary: r)
  case Nil
  then show ?case by simp
next
  case (Cons c cs)
  from Cons.prems(2) obtain r1 where s: "constraint_step r c = Inr r1"
    and f: "foldE constraint_step r1 cs = Inr r'"
    by (auto split: sum.splits)
  from s Cons.prems(1) have "derived kvs r1"
    by (auto simp: constraint_step_def split: option.splits sum.splits dest: derived_hint)
  from Cons.IH[OF this f] show ?case .
qed

lemma derived_constraints: "constraints_node kvs = Inr r \<Longrightarrow> derived kvs r"
  unfolding constraints_node_def by (rule derived_foldE_constraints[OF derived_refl])

lemma derived_typeArray: "typeArray_node kvs = Inr r \<Longrightarrow> derived kvs r"
proof (cases "\<exists>types. map_of kvs ''type'' = Some (JArr types)")
  case False
  assume "typeArray_node kvs = Inr r"
  with False show ?thesis
    by (auto simp: typeArray_node_def derived_refl split: option.splits json.splits)
next
  case True
  assume a: "typeArray_node kvs = Inr r"
  from True obtain types where t: "map_of kvs ''type'' = Some (JArr types)" by blast
  then have "(''type'', JArr types) \<in> set kvs" by (rule map_of_SomeD)
  from size_member[OF this] have big: "size (JArr types) < size (JObj kvs)" .
  define nonNullTypes where "nonNullTypes = filter (\<lambda>t. t \<noteq> JStr ''null'' \<and> truthy t) types"
  define res1 where "res1 = JObj (obj_set ''type''
                       (case nonNullTypes of [] \<Rightarrow> JStr ''string'' | t # _ \<Rightarrow> t) kvs)"
  have "size (case nonNullTypes of [] \<Rightarrow> JStr ''string'' | t # _ \<Rightarrow> t) < size (JObj kvs)"
  proof (cases nonNullTypes)
    case Nil
    then show ?thesis using big by simp
  next
    case (Cons a list)
    then have "a \<in> set nonNullTypes" by simp
    then have "a \<in> set types" by (simp add: nonNullTypes_def)
    from size_elem[OF this] big Cons show ?thesis by simp
  qed
  then have d1: "derived kvs res1"
    unfolding res1_def by (intro derived_obj_set derived_refl)
  from a t obtain res2 where
    two: "res2 = res1 \<or> (\<exists>hint. appendDescriptionHint res1 hint = Inr res2)"
    and three: "r = res2 \<or> (\<exists>hint. appendDescriptionHint res2 hint = Inr r)"
    unfolding typeArray_node_def Let_def t option.case json.case
      nonNullTypes_def[symmetric] res1_def[symmetric]
    by (auto split: sum.splits if_splits)
  from two d1 have d2: "derived kvs res2" by (auto dest: derived_hint)
  from three d2 show ?thesis by (auto dest: derived_hint)
qed

lemma derived_required: "required_node kvs = Inr r \<Longrightarrow> derived kvs r"
proof (cases "\<exists>req. map_of kvs ''required'' = Some (JArr req)")
  case False
  assume "required_node kvs = Inr r"
  with False show ?thesis
    by (auto simp: required_node_def derived_refl split: option.splits json.splits)
next
  case True
  assume a: "required_node kvs = Inr r"
  from True obtain req where t: "map_of kvs ''required'' = Some (JArr req)" by blast
  then have "(''required'', JArr req) \<in> set kvs" by (rule map_of_SomeD)
  from size_member[OF this] have big: "size (JArr req) < size (JObj kvs)" .
  have sub: "size (JArr (map fst (filter P (zip req names)))) \<le> size (JArr req)"
    for P :: "json \<times> string \<Rightarrow> bool" and names
  proof -
    have "size_list size (map fst (filter P (zip xs ys))) \<le> size_list size xs"
      for xs :: "json list" and ys :: "string list"
    proof (induction xs arbitrary: ys)
      case Nil
      show ?case by simp
    next
      case (Cons x xs)
      show ?case
      proof (cases ys)
        case Nil
        then show ?thesis by simp
      next
        case (Cons y ys')
        with Cons.IH[of ys'] show ?thesis by (cases "P (x, y)") simp_all
      qed
    qed
    then show ?thesis by simp
  qed
  from a t have "r = JObj kvs \<or> r = JObj (obj_del ''required'' kvs) \<or>
      (\<exists>props names. r = JObj (obj_set ''required''
          (JArr (map fst (filter (\<lambda>(r, n). has_own props n) (zip req names)))) kvs))"
    unfolding required_node_def Let_def t option.case json.case
    by (auto split: option.splits sum.splits if_splits)
  then show ?thesis
  proof (elim disjE exE)
    assume "r = JObj kvs"
    then show ?thesis by (simp add: derived_refl)
  next
    assume "r = JObj (obj_del ''required'' kvs)"
    then show ?thesis by (simp add: derived_obj_del derived_refl)
  next
    fix props names
    assume r: "r = JObj (obj_set ''required''
          (JArr (map fst (filter (\<lambda>(r, n). has_own props n) (zip req names)))) kvs)"
    from sub[of "\<lambda>(r, n). has_own props n" names] big
    have "size (JArr (map fst (filter (\<lambda>(r, n). has_own props n) (zip req names)))) < size (JObj kvs)"
      by simp
    then show ?thesis unfolding r by (intro derived_obj_set derived_refl)
  qed
qed

subsection \<open>The walks of phases 1, 2c and 3b\<close>

function convertRefsToHints :: "json \<Rightarrow> error + json" where
  "convertRefsToHints (JArr xs) = walk_array convertRefsToHints xs"
| "convertRefsToHints (JObj kvs) =
     (case refs_node kvs of
        Inl e \<Rightarrow> Inl e
      | Inr result \<Rightarrow> walk_values convertRefsToHints (own_entries result))"
| "convertRefsToHints JNull = Inr JNull"
| "convertRefsToHints (JBool b) = Inr (JBool b)"
| "convertRefsToHints (JNum r) = Inr (JNum r)"
| "convertRefsToHints (JStr s) = Inr (JStr s)"
  by pat_completeness auto
termination
proof (relation "measure size", goal_cases)
  case 1
  show ?case by simp
next
  case (2 xs x)
  from size_elem[OF this] show ?case by simp
next
  case (3 kvs result k v)
  then show ?case using derived_entries[OF derived_refs, of kvs result k v] by simp
qed

function convertConstToEnum :: "json \<Rightarrow> error + json" where
  "convertConstToEnum (JArr xs) = walk_array convertConstToEnum xs"
| "convertConstToEnum (JObj kvs) =
     (case const_node kvs of
        Inl e \<Rightarrow> Inl e
      | Inr result \<Rightarrow> walk_values convertConstToEnum (own_entries result))"
| "convertConstToEnum JNull = Inr JNull"
| "convertConstToEnum (JBool b) = Inr (JBool b)"
| "convertConstToEnum (JNum r) = Inr (JNum r)"
| "convertConstToEnum (JStr s) = Inr (JStr s)"
  by pat_completeness auto
termination
proof (relation "measure size", goal_cases)
  case 1
  show ?case by simp
next
  case (2 xs x)
  from size_elem[OF this] show ?case by simp
next
  case (3 kvs result k v)
  then show ?case using derived_entries[OF derived_const, of kvs result k v] by simp
qed

function addEnumHints :: "json \<Rightarrow> error + json" where
  "addEnumHints (JArr xs) = walk_array addEnumHints xs"
| "addEnumHints (JObj kvs) =
     (case enum_node kvs of
        Inl e \<Rightarrow> Inl e
      | Inr result \<Rightarrow> walk_values addEnumHints (own_entries result))"
| "addEnumHints JNull = Inr JNull"
| "addEnumHints (JBool b) = Inr (JBool b)"
| "addEnumHints (JNum r) = Inr (JNum r)"
| "addEnumHints (JStr s) = Inr (JStr s)"
  by pat_completeness auto
termination
proof (relation "measure size", goal_cases)
  case 1
  show ?case by simp
next
  case (2 xs x)
  from size_elem[OF this] show ?case by simp
next
  case (3 kvs result k v)
  then show ?case using derived_entries[OF derived_enum, of kvs result k v] by simp
qed

function addAdditionalPropertiesHints :: "json \<Rightarrow> error + json" where
  "addAdditionalPropertiesHints (JArr xs) = walk_array addAdditionalPropertiesHints xs"
| "addAdditionalPropertiesHints (JObj kvs) =
     (case additionalProperties_node kvs of
        Inl e \<Rightarrow> Inl e
      | Inr result \<Rightarrow> walk_values addAdditionalPropertiesHints (own_entries result))"
| "addAdditionalPropertiesHints JNull = Inr JNull"
| "addAdditionalPropertiesHints (JBool b) = Inr (JBool b)"
| "addAdditionalPropertiesHints (JNum r) = Inr (JNum r)"
| "addAdditionalPropertiesHints (JStr s) = Inr (JStr s)"
  by pat_completeness auto
termination
proof (relation "measure size", goal_cases)
  case 1
  show ?case by simp
next
  case (2 xs x)
  from size_elem[OF this] show ?case by simp
next
  case (3 kvs result k v)
  then show ?case using derived_entries[OF derived_additionalProperties, of kvs result k v] by simp
qed

function moveConstraintsToDescription :: "json \<Rightarrow> error + json" where
  "moveConstraintsToDescription (JArr xs) = walk_array moveConstraintsToDescription xs"
| "moveConstraintsToDescription (JObj kvs) =
     (case constraints_node kvs of
        Inl e \<Rightarrow> Inl e
      | Inr result \<Rightarrow> walk_values moveConstraintsToDescription (own_entries result))"
| "moveConstraintsToDescription JNull = Inr JNull"
| "moveConstraintsToDescription (JBool b) = Inr (JBool b)"
| "moveConstraintsToDescription (JNum r) = Inr (JNum r)"
| "moveConstraintsToDescription (JStr s) = Inr (JStr s)"
  by pat_completeness auto
termination
proof (relation "measure size", goal_cases)
  case 1
  show ?case by simp
next
  case (2 xs x)
  from size_elem[OF this] show ?case by simp
next
  case (3 kvs result k v)
  then show ?case using derived_entries[OF derived_constraints, of kvs result k v] by simp
qed

function flattenTypeArrays :: "json \<Rightarrow> error + json" where
  "flattenTypeArrays (JArr xs) = walk_array flattenTypeArrays xs"
| "flattenTypeArrays (JObj kvs) =
     (case typeArray_node kvs of
        Inl e \<Rightarrow> Inl e
      | Inr result \<Rightarrow> walk_values flattenTypeArrays (own_entries result))"
| "flattenTypeArrays JNull = Inr JNull"
| "flattenTypeArrays (JBool b) = Inr (JBool b)"
| "flattenTypeArrays (JNum r) = Inr (JNum r)"
| "flattenTypeArrays (JStr s) = Inr (JStr s)"
  by pat_completeness auto
termination
proof (relation "measure size", goal_cases)
  case 1
  show ?case by simp
next
  case (2 xs x)
  from size_elem[OF this] show ?case by simp
next
  case (3 kvs result k v)
  then show ?case using derived_entries[OF derived_typeArray, of kvs result k v] by simp
qed

function cleanupRequiredFields :: "json \<Rightarrow> error + json" where
  "cleanupRequiredFields (JArr xs) = walk_array cleanupRequiredFields xs"
| "cleanupRequiredFields (JObj kvs) =
     (case required_node kvs of
        Inl e \<Rightarrow> Inl e
      | Inr result \<Rightarrow> walk_values cleanupRequiredFields (own_entries result))"
| "cleanupRequiredFields JNull = Inr JNull"
| "cleanupRequiredFields (JBool b) = Inr (JBool b)"
| "cleanupRequiredFields (JNum r) = Inr (JNum r)"
| "cleanupRequiredFields (JStr s) = Inr (JStr s)"
  by pat_completeness auto
termination
proof (relation "measure size", goal_cases)
  case 1
  show ?case by simp
next
  case (2 xs x)
  from size_elem[OF this] show ?case by simp
next
  case (3 kvs result k v)
  then show ?case using derived_entries[OF derived_required, of kvs result k v] by simp
qed

subsection \<open>Phase 4: the placeholder of an empty object schema\<close>

definition EMPTY_SCHEMA_PLACEHOLDER_NAME :: string where
  "EMPTY_SCHEMA_PLACEHOLDER_NAME = ''_placeholder''"

definition EMPTY_SCHEMA_PLACEHOLDER_DESCRIPTION :: string where
  "EMPTY_SCHEMA_PLACEHOLDER_DESCRIPTION = ''Placeholder. Always pass true.''"

definition placeholder_schema :: json where
  "placeholder_schema =
     JObj [(''type'', JStr ''BOOLEAN''), (''description'', JStr EMPTY_SCHEMA_PLACEHOLDER_DESCRIPTION)]"

definition placeholder_properties :: json where
  "placeholder_properties = JObj [(EMPTY_SCHEMA_PLACEHOLDER_NAME, placeholder_schema)]"

definition placeholder_node :: "(string \<times> json) list \<Rightarrow> json" where
  "placeholder_node kvs =
     (if map_of kvs ''type'' = Some (JStr ''object'') \<or> map_of kvs ''type'' = Some (JStr ''OBJECT'')
      then
        let hasProperties =
              (case map_of kvs ''properties'' of
                 Some p \<Rightarrow> is_object p \<and> own_entries p \<noteq> []
               | None \<Rightarrow> False)
        in if \<not> hasProperties
           then JObj (obj_set ''required'' (JArr [JStr EMPTY_SCHEMA_PLACEHOLDER_NAME])
                  (obj_set ''properties'' placeholder_properties kvs))
           else JObj kvs
      else JObj kvs)"

text \<open>
  The walk also visits the placeholder it has just inserted, which can be larger than
  the node it was inserted into; the measure counts the two placeholder literals as
  smaller than everything else.
\<close>

definition placeholder_measure :: "json \<Rightarrow> nat" where
  "placeholder_measure v =
     (if v = placeholder_properties then 1 else if v = placeholder_schema then 0 else size v + 2)"

lemma placeholder_measure_le: "placeholder_measure v \<le> size v + 2"
  by (simp add: placeholder_measure_def)

lemma placeholder_node_entries:
  assumes "(k, v) \<in> set (own_entries (placeholder_node kvs))"
  shows "(k, v) \<in> set kvs \<or>
         (kvs \<noteq> [] \<and> JObj kvs \<noteq> placeholder_properties \<and> JObj kvs \<noteq> placeholder_schema \<and>
          (v = placeholder_properties \<or> v = JArr [JStr EMPTY_SCHEMA_PLACEHOLDER_NAME]))"
proof (cases "(map_of kvs ''type'' = Some (JStr ''object'') \<or> map_of kvs ''type'' = Some (JStr ''OBJECT''))")
  case False
  with assms show ?thesis by (simp add: placeholder_node_def)
next
  case True
  then have ne: "kvs \<noteq> []" by auto
  from True have np: "JObj kvs \<noteq> placeholder_properties"
    by (auto simp: placeholder_properties_def EMPTY_SCHEMA_PLACEHOLDER_NAME_def)
  from True have ns: "JObj kvs \<noteq> placeholder_schema"
    by (auto simp: placeholder_schema_def)
  from assms True
  have "(k, v) \<in> set kvs \<or> (k, v) \<in> set (obj_set ''required'' (JArr [JStr EMPTY_SCHEMA_PLACEHOLDER_NAME])
                  (obj_set ''properties'' placeholder_properties kvs))"
    by (auto simp: placeholder_node_def Let_def split: if_splits)
  with set_obj_set[of "''required''" "JArr [JStr EMPTY_SCHEMA_PLACEHOLDER_NAME]"
      "obj_set ''properties'' placeholder_properties kvs"]
    set_obj_set[of "''properties''" placeholder_properties kvs]
  have "(k, v) \<in> set kvs \<or> v = placeholder_properties \<or> v = JArr [JStr EMPTY_SCHEMA_PLACEHOLDER_NAME]"
    by auto
  with ne np ns show ?thesis by blast
qed

lemma placeholder_measure_elem:
  assumes "x \<in> set xs"
  shows "placeholder_measure x < placeholder_measure (JArr xs)"
proof -
  have "JArr xs \<noteq> placeholder_properties" "JArr xs \<noteq> placeholder_schema"
    by (simp_all add: placeholder_properties_def placeholder_schema_def)
  then have "placeholder_measure (JArr xs) = size (JArr xs) + 2"
    by (simp add: placeholder_measure_def)
  with size_elem[OF assms] placeholder_measure_le[of x] show ?thesis by simp
qed

lemma placeholder_measure_entry:
  assumes mem: "(k, v) \<in> set (own_entries (placeholder_node kvs))" and obj: "is_object v"
  shows "placeholder_measure v < placeholder_measure (JObj kvs)"
proof -
  show ?thesis
  proof (cases "JObj kvs = placeholder_properties")
    case True
    then have "placeholder_node kvs = JObj kvs"
      by (simp add: placeholder_node_def placeholder_properties_def EMPTY_SCHEMA_PLACEHOLDER_NAME_def)
    with mem True have "v = placeholder_schema"
      by (simp add: placeholder_properties_def)
    with True show ?thesis
      by (simp add: placeholder_measure_def placeholder_properties_def placeholder_schema_def)
  next
    case np: False
    show ?thesis
    proof (cases "JObj kvs = placeholder_schema")
      case True
      then have "placeholder_node kvs = JObj kvs"
        by (simp add: placeholder_node_def placeholder_schema_def)
      with mem True obj show ?thesis
        by (auto simp: placeholder_schema_def)
    next
      case ns: False
      from np ns have m: "placeholder_measure (JObj kvs) = size (JObj kvs) + 2"
        by (simp add: placeholder_measure_def)
      from placeholder_node_entries[OF mem] show ?thesis
      proof (elim disjE conjE)
        assume "(k, v) \<in> set kvs"
        from size_member[OF this] placeholder_measure_le[of v] m show ?thesis by simp
      next
        assume "kvs \<noteq> []" "v = placeholder_properties"
        with m show ?thesis by (simp add: placeholder_measure_def)
      next
        assume ne: "kvs \<noteq> []" and v: "v = JArr [JStr EMPTY_SCHEMA_PLACEHOLDER_NAME]"
        from v have "placeholder_measure v \<le> 4"
          using placeholder_measure_le[of v] by simp
        with size_obj_nonempty[OF ne] m show ?thesis by simp
      qed
    qed
  qed
qed

function addEmptySchemaPlaceholder :: "json \<Rightarrow> json" where
  "addEmptySchemaPlaceholder (JArr xs) = JArr (map addEmptySchemaPlaceholder xs)"
| "addEmptySchemaPlaceholder (JObj kvs) =
     JObj (map (\<lambda>(k, v). (k, if is_object v then addEmptySchemaPlaceholder v else v))
            (own_entries (placeholder_node kvs)))"
| "addEmptySchemaPlaceholder JNull = JNull"
| "addEmptySchemaPlaceholder (JBool b) = JBool b"
| "addEmptySchemaPlaceholder (JNum r) = JNum r"
| "addEmptySchemaPlaceholder (JStr s) = JStr s"
  by pat_completeness auto
termination
proof (relation "measure placeholder_measure", goal_cases)
  case 1
  show ?case by simp
next
  case (2 xs x)
  from placeholder_measure_elem[OF this] show ?case by simp
next
  case (3 kvs x k v)
  then have "(k, v) \<in> set (own_entries (placeholder_node kvs))" "is_object v"
    by simp_all
  from placeholder_measure_entry[OF this] show ?case by simp
qed


subsection \<open>Phase 3a: removal of unsupported keywords\<close>

definition UNSUPPORTED_KEYWORDS :: "string list" where
  "UNSUPPORTED_KEYWORDS =
     UNSUPPORTED_CONSTRAINTS @
     [''$schema'', ''$defs'', ''definitions'', ''$ref'', ''$id'', ''$comment'', ''const'',
      ''additionalProperties'', ''title'', ''default'', ''examples'', ''readOnly'', ''writeOnly'',
      ''contentEncoding'', ''contentMediaType'', ''if'', ''then'', ''else'', ''not'',
      ''dependentSchemas'', ''dependentRequired'', ''patternProperties'', ''propertyNames'',
      ''unevaluatedProperties'', ''unevaluatedItems'', ''minContains'', ''maxContains'']"

lemma size_own_entries:
  "is_object x \<Longrightarrow> (k, v) \<in> set (own_entries x) \<Longrightarrow> size v < size x"
proof (cases x)
  case (JArr xs)
  assume "(k, v) \<in> set (own_entries x)"
  with JArr have "v \<in> set xs" by (auto dest: set_zip_rightD)
  from size_elem[OF this] JArr show ?thesis by simp
next
  case (JObj kvs)
  assume "(k, v) \<in> set (own_entries x)"
  with JObj size_member[of k v kvs] show ?thesis by simp
qed (simp_all add: is_object_def)

text \<open>
  \<open>removeUnsupportedKeywords\<close> and \<open>toGeminiFormat\<close> do not copy the node: they
  start from the empty object \<open>{}\<close> and assign \<open>result[key] = ...\<close> for the keys of the
  input.  Each property of the input adds at most one property to the result (the
  names of the input are distinct), with one exception: an assignment to the key
  \<open>__proto__\<close> reaches the setter of \<open>Object.prototype\<close>, which adds no property; it
  replaces the prototype of \<open>result\<close> when the value is an object, an array or \<open>null\<close>
  and does nothing otherwise.  The model of a phase returns the own properties of the
  result, so such a key is dropped.  After \<open>removeUnsupportedKeywords\<close> nothing reads
  through the replaced prototype: the next phase copies the own properties of every
  object (\<open>{...schema}\<close>) and works on the copy.  \<open>toGeminiFormat\<close> itself reads
  \<open>result.type\<close> and \<open>result.items\<close> at its end, and these two reads do see the
  prototype (\<open>inherited\<close> below).

  The names inside a \<open>properties\<close> map are kept whatever they are (the second
  parameter of \<open>removeUnsupportedKeywords\<close> is false in every call of the file); only
  their schemas are cleaned.
\<close>

function removeUnsupportedKeywords :: "bool \<Rightarrow> json \<Rightarrow> json" where
  "removeUnsupportedKeywords insideProperties (JArr xs) =
     JArr (map (removeUnsupportedKeywords False) xs)"
| "removeUnsupportedKeywords insideProperties (JObj kvs) =
     JObj (concat (map (\<lambda>(key, value).
        if \<not> insideProperties \<and> key \<in> set UNSUPPORTED_KEYWORDS then []
        else if is_object value then
          (if key = ''properties''
           then [(key, JObj (concat (map (\<lambda>(propName, propSchema).
                                if propName = ''__proto__'' then []
                                else [(propName, removeUnsupportedKeywords False propSchema)])
                          (own_entries value))))]
           else if key = ''__proto__'' then []
           else [(key, removeUnsupportedKeywords False value)])
        else if key = ''__proto__'' then []
        else [(key, value)]) kvs))"
| "removeUnsupportedKeywords insideProperties JNull = JNull"
| "removeUnsupportedKeywords insideProperties (JBool b) = JBool b"
| "removeUnsupportedKeywords insideProperties (JNum r) = JNum r"
| "removeUnsupportedKeywords insideProperties (JStr s) = JStr s"
  by pat_completeness auto
termination
proof (relation "measure (\<lambda>(ip, v). size v)", goal_cases)
  case 1
  show ?case by simp
next
  case (2 insideProperties xs x)
  from size_elem[OF this] show ?case by simp
next
  case (3 insideProperties kvs x key val xa propName propSchema)
  then have m: "(key, val) \<in> set kvs" and o: "is_object val"
    and p: "(propName, propSchema) \<in> set (own_entries val)"
    by simp_all
  from size_member[OF m] size_own_entries[OF o p] show ?case by simp
next
  case (4 insideProperties kvs x key val)
  then have "(key, val) \<in> set kvs" by simp
  from size_member[OF this] show ?case by simp
qed

subsection \<open>Phase 5: the Gemini format\<close>

text \<open>
  \<open>toUpperCase\<close> on ASCII text.
\<close>

definition toUpperCase :: "string \<Rightarrow> string" where
  "toUpperCase s =
     map (\<lambda>c. if (97::nat) \<le> of_char c \<and> of_char c \<le> (122::nat)
              then char_of (of_char c - (32::nat)) else c) s"

definition is_array :: "json \<Rightarrow> bool" where
  "is_array v = (case v of JArr _ \<Rightarrow> True | _ \<Rightarrow> False)"

definition elements :: "json \<Rightarrow> json list" where
  "elements v = (case v of JArr xs \<Rightarrow> xs | _ \<Rightarrow> [])"

definition is_string :: "json \<Rightarrow> bool" where
  "is_string v = (case v of JStr _ \<Rightarrow> True | _ \<Rightarrow> False)"

definition string_of :: "json \<Rightarrow> string" where
  "string_of v = (case v of JStr s \<Rightarrow> s | _ \<Rightarrow> [])"

text \<open>
  \<open>toGeminiFormat\<close>.  \<open>property_names\<close> is the set \<open>propertyNames\<close>, as the list
  of the keys of \<open>schema.properties\<close>.  \<open>ensure_items\<close> is the last step, which gives
  an array schema an \<open>items\<close> schema; \<open>inherited kvs k\<close> is what \<open>result.k\<close> finds
  when \<open>result\<close> has no own property \<open>k\<close>: the property of the prototype that an
  entry \<open>__proto__\<close> of the input has set.  The code recurses only into the values of
  \<open>properties\<close>, into \<open>items\<close> and into the members of \<open>anyOf\<close>, \<open>oneOf\<close> and
  \<open>allOf\<close>.
\<close>

definition property_names :: "(string \<times> json) list \<Rightarrow> string list" where
  "property_names kvs =
     (case map_of kvs ''properties'' of
        Some p \<Rightarrow> if is_object p then map fst (own_entries p) else []
      | None \<Rightarrow> [])"

definition inherited :: "(string \<times> json) list \<Rightarrow> string \<Rightarrow> json option" where
  "inherited kvs k = (case map_of kvs ''__proto__'' of Some p \<Rightarrow> js_prop p k | None \<Rightarrow> None)"

definition ensure_items :: "(string \<times> json) list \<Rightarrow> (string \<times> json) list \<Rightarrow> (string \<times> json) list" where
  "ensure_items kvs result =
     (let read = (\<lambda>k. case map_of result k of Some v \<Rightarrow> Some v | None \<Rightarrow> inherited kvs k)
      in if read ''type'' = Some (JStr ''ARRAY'') \<and> \<not> truthy_opt (read ''items'')
         then obj_set ''items'' (JObj [(''type'', JStr ''STRING'')]) result
         else result)"

function toGeminiFormat :: "json \<Rightarrow> json" where
  "toGeminiFormat (JArr xs) = JArr (map toGeminiFormat xs)"
| "toGeminiFormat (JObj kvs) =
     JObj (ensure_items kvs (concat (map (\<lambda>(key, value).
        if key = ''type'' \<and> is_string value then [(key, JStr (toUpperCase (string_of value)))]
        else if key = ''properties'' \<and> is_object value then
          [(key, JObj (concat (map (\<lambda>(propName, propSchema).
                                 if propName = ''__proto__'' then []
                                 else [(propName, toGeminiFormat propSchema)])
                         (own_entries value))))]
        else if key = ''items'' \<and> (is_object value \<or> value = JNull) then
          [(key, toGeminiFormat value)]
        else if (key = ''anyOf'' \<or> key = ''oneOf'' \<or> key = ''allOf'') \<and> is_array value then
          [(key, JArr (map toGeminiFormat (elements value)))]
        else if key = ''required'' \<and> is_array value then
          (if property_names kvs \<noteq> [] then
             (let validRequired =
                    filter (\<lambda>p. is_string p \<and> string_of p \<in> set (property_names kvs))
                      (elements value)
              in if validRequired \<noteq> [] then [(key, JArr validRequired)] else [])
           else [(key, value)])
        else if key = ''__proto__'' then []
        else [(key, value)]) kvs)))"
| "toGeminiFormat JNull = JNull"
| "toGeminiFormat (JBool b) = JBool b"
| "toGeminiFormat (JNum r) = JNum r"
| "toGeminiFormat (JStr s) = JStr s"
  by pat_completeness auto
termination
proof (relation "measure size", goal_cases)
  case 1
  show ?case by simp
next
  case (2 xs x)
  from size_elem[OF this] show ?case by simp
next
  case (3 kvs x key val xa propName propSchema)
  then have m: "(key, val) \<in> set kvs" and o: "is_object val"
    and p: "(propName, propSchema) \<in> set (own_entries val)"
    by simp_all
  from size_member[OF m] size_own_entries[OF o p] show ?case by simp
next
  case (4 kvs x key val)
  then have "(key, val) \<in> set kvs" by simp
  from size_member[OF this] show ?case by simp
next
  case (5 kvs x key val xa)
  then have m: "(key, val) \<in> set kvs" and e: "xa \<in> set (elements val)" by simp_all
  from e obtain ys where v: "val = JArr ys" and "xa \<in> set ys"
    by (cases val) (auto simp: elements_def)
  from size_elem[OF this(2)] size_member[OF m] v show ?case by simp
qed


subsection \<open>Phase 2a: \<open>allOf\<close>\<close>

text \<open>
  \<open>dedupe\<close> is \<open>[...new Set(xs)]\<close>: primitives are compared by value, and two
  objects of a JSON tree are never the same object.
\<close>

fun dedupe :: "json list \<Rightarrow> json list \<Rightarrow> json list" where
  "dedupe seen [] = []"
| "dedupe seen (x # xs) =
     (if \<not> is_object x \<and> x \<in> set seen then dedupe seen xs else x # dedupe (x # seen) xs)"

text \<open>
  The body of the loop over the members of \<open>allOf\<close>, for a member whose processed
  form is not \<open>null\<close>; the accumulator is the pair of \<open>merged\<close> and
  \<open>allRequired\<close>.  Reading \<open>processed.properties\<close> of \<open>null\<close> raises a TypeError.
\<close>

definition merge_step ::
  "json \<Rightarrow> (string \<times> json) list \<times> json list \<Rightarrow> (string \<times> json) list \<times> json list" where
  "merge_step processed acc =
     (let merged = fst acc;
          allRequired = snd acc;
          props = js_prop processed ''properties'';
          m1 = (if truthy_opt props
                then obj_set ''properties''
                       (JObj (spread (case map_of merged ''properties'' of
                                        Some mp \<Rightarrow> own_entries mp | None \<Rightarrow> [])
                                (own_entries (the props))))
                       merged
                else merged);
          ar1 = (case js_prop processed ''required'' of
                   Some (JArr rs) \<Rightarrow> allRequired @ rs
                 | _ \<Rightarrow> allRequired);
          ty = js_prop processed ''type'';
          m2 = (if \<not> truthy_opt (map_of m1 ''type'') \<and> truthy_opt ty
                then obj_set ''type'' (the ty) m1 else m1);
          d = js_prop processed ''description'';
          m3 = (if truthy_opt d \<and> \<not> truthy_opt (map_of m2 ''description'')
                then obj_set ''description'' (the d) m2 else m2)
      in (m3, ar1))"

fun merge_subs ::
  "(json \<Rightarrow> error + json) \<Rightarrow> json list \<Rightarrow> (string \<times> json) list \<times> json list \<Rightarrow>
     error + ((string \<times> json) list \<times> json list)" where
  "merge_subs rec [] acc = Inr acc"
| "merge_subs rec (sub # subs) acc =
     (case rec sub of
        Inl e \<Rightarrow> Inl e
      | Inr processed \<Rightarrow>
          if processed = JNull then Inl TypeError
          else merge_subs rec subs (merge_step processed acc))"

text \<open>
  The top-level step of \<open>mergeAllOf\<close>.  The spread \<open>[...(result.required || [])]\<close>
  iterates an array or a string and raises a TypeError on any other truthy value.
\<close>

definition allOf_node ::
  "(json \<Rightarrow> error + json) \<Rightarrow> (string \<times> json) list \<Rightarrow> error + (string \<times> json) list" where
  "allOf_node rec kvs =
     (case map_of kvs ''allOf'' of
        Some (JArr subs) \<Rightarrow>
          if subs = [] then Inr kvs
          else
            (case merge_subs rec subs ([], []) of
               Inl e \<Rightarrow> Inl e
             | Inr (merged, allRequired) \<Rightarrow>
                 let result = spread (obj_del ''allOf'' kvs) merged
                 in if allRequired \<noteq> [] then
                      (case (if truthy_opt (map_of result ''required'')
                             then iterate (the (map_of result ''required'')) else Inr []) of
                         Inl e \<Rightarrow> Inl e
                       | Inr cur \<Rightarrow>
                           Inr (obj_set ''required'' (JArr (dedupe [] (cur @ allRequired))) result))
                    else Inr result)
      | _ \<Rightarrow> Inr kvs)"

text \<open>
  \<open>mergeAllOf\<close> and \<open>flattenAnyOfOneOf\<close> call themselves on values they have
  already rebuilt, so their recursion is not structural.  They are modelled with fuel:
  every call on an object or array uses one unit.  The nesting depth of the argument
  is enough fuel (lemmas \<open>mergeAllOf_total\<close> and \<open>flattenAnyOfOneOf_total\<close>).
\<close>

fun mergeAllOf_fuel :: "nat \<Rightarrow> json \<Rightarrow> error + json" where
  "mergeAllOf_fuel n JNull = Inr JNull"
| "mergeAllOf_fuel n (JBool b) = Inr (JBool b)"
| "mergeAllOf_fuel n (JNum r) = Inr (JNum r)"
| "mergeAllOf_fuel n (JStr s) = Inr (JStr s)"
| "mergeAllOf_fuel 0 (JArr xs) = Inl OutOfFuel"
| "mergeAllOf_fuel 0 (JObj kvs) = Inl OutOfFuel"
| "mergeAllOf_fuel (Suc n) (JArr xs) = walk_array (\<lambda>x. mergeAllOf_fuel n x) xs"
| "mergeAllOf_fuel (Suc n) (JObj kvs) =
     (case allOf_node (\<lambda>x. mergeAllOf_fuel n x) kvs of
        Inl e \<Rightarrow> Inl e
      | Inr result \<Rightarrow> walk_values (\<lambda>x. mergeAllOf_fuel n x) result)"

subsection \<open>Phase 2b: \<open>anyOf\<close> and \<open>oneOf\<close>\<close>

definition scoreSchemaOption :: "json \<Rightarrow> int \<times> json" where
  "scoreSchemaOption schema =
     (if \<not> is_object schema then (0, JStr ''unknown'')
      else
        let ty = js_prop schema ''type''
        in if ty = Some (JStr ''object'') \<or> truthy_opt (js_prop schema ''properties'')
             then (3, JStr ''object'')
           else if ty = Some (JStr ''array'') \<or> truthy_opt (js_prop schema ''items'')
             then (2, JStr ''array'')
           else if truthy_opt ty \<and> ty \<noteq> Some (JStr ''null'') then (1, the ty)
           else (0, if truthy_opt ty then the ty else JStr ''null''))"

text \<open>
  \<open>tryMergeEnumFromUnion\<close>: the loop over the options, then the final test.  The
  conversion of a constant or of an enum value to a string can raise.
\<close>

fun enum_loop :: "json list \<Rightarrow> string list \<Rightarrow> error + string list option" where
  "enum_loop [] enumValues = Inr (Some enumValues)"
| "enum_loop (opt # rest) enumValues =
     (if \<not> is_object opt then Inr None
      else
        (case js_prop opt ''const'' of
           Some c \<Rightarrow>
             (case js_String c of
                Inl e \<Rightarrow> Inl e
              | Inr txt \<Rightarrow> enum_loop rest (enumValues @ [txt]))
         | None \<Rightarrow>
             if is_array (or_default (js_prop opt ''enum'') JNull)
                \<and> elements (or_default (js_prop opt ''enum'') JNull) \<noteq> []
             then
               (case mapE js_String (elements (or_default (js_prop opt ''enum'') JNull)) of
                  Inl e \<Rightarrow> Inl e
                | Inr txts \<Rightarrow> enum_loop rest (enumValues @ txts))
             else if truthy_opt (js_prop opt ''properties'') \<or> truthy_opt (js_prop opt ''items'')
                     \<or> truthy_opt (js_prop opt ''anyOf'') \<or> truthy_opt (js_prop opt ''oneOf'')
                     \<or> truthy_opt (js_prop opt ''allOf'')
               then Inr None
             else if truthy_opt (js_prop opt ''type'') \<and> \<not> truthy_opt (js_prop opt ''const'')
                     \<and> \<not> truthy_opt (js_prop opt ''enum'')
               then Inr None
             else enum_loop rest enumValues))"

definition tryMergeEnumFromUnion :: "json list \<Rightarrow> error + string list option" where
  "tryMergeEnumFromUnion options =
     (if options = [] then Inr None
      else (case enum_loop options [] of
              Inl e \<Rightarrow> Inl e
            | Inr None \<Rightarrow> Inr None
            | Inr (Some enumValues) \<Rightarrow> if enumValues \<noteq> [] then Inr (Some enumValues) else Inr None))"

text \<open>
  The selection loop of \<open>flattenAnyOfOneOf\<close>: the first option with the highest
  score.
\<close>

fun best_index :: "json list \<Rightarrow> nat \<Rightarrow> nat \<Rightarrow> int \<Rightarrow> nat" where
  "best_index [] i bestIdx bestScore = bestIdx"
| "best_index (opt # rest) i bestIdx bestScore =
     (if fst (scoreSchemaOption opt) > bestScore
      then best_index rest (i + 1) i (fst (scoreSchemaOption opt))
      else best_index rest (i + 1) bestIdx bestScore)"

definition description_of :: "json \<Rightarrow> string" where
  "description_of v = (case js_prop v ''description'' of Some (JStr d) \<Rightarrow> d | _ \<Rightarrow> [])"

text \<open>
  The selected option after the recursive call: the default schema when it is falsy,
  the parent's description combined with its own, and the \<open>Accepts\<close> hint.
\<close>

definition describe_selected :: "string \<Rightarrow> json list \<Rightarrow> json \<Rightarrow> error + json" where
  "describe_selected parentDesc allTypes flattened =
     (let selected0 = (if truthy flattened then flattened else JObj [(''type'', JStr ''string'')]);
          childDesc = description_of selected0;
          selected1 =
            (if parentDesc \<noteq> [] then
               (if childDesc \<noteq> [] \<and> childDesc \<noteq> parentDesc then
                  JObj (obj_set ''description'' (JStr (parentDesc @ '' ('' @ childDesc @ '')''))
                         (own_entries selected0))
                else if childDesc = [] then
                  JObj (obj_set ''description'' (JStr parentDesc) (own_entries selected0))
                else selected0)
             else selected0)
      in if length allTypes > 1
         then (case js_join '' | '' (dedupe [] allTypes) of
                 Inl e \<Rightarrow> Inl e
               | Inr names \<Rightarrow> appendDescriptionHint selected1 (''Accepts: '' @ names))
         else Inr selected1)"

definition union_enum :: "string \<Rightarrow> string list \<Rightarrow> (string \<times> json) list \<Rightarrow> (string \<times> json) list" where
  "union_enum unionKey mergedEnum result =
     (let parentDesc = description_of (JObj result);
          r1 = obj_set ''enum'' (JArr (map JStr mergedEnum))
                 (obj_set ''type'' (JStr ''string'') (obj_del unionKey result))
      in if parentDesc \<noteq> [] then obj_set ''description'' (JStr parentDesc) r1 else r1)"

definition union_best ::
  "(json \<Rightarrow> error + json) \<Rightarrow> string \<Rightarrow> json list \<Rightarrow> (string \<times> json) list \<Rightarrow>
     error + (string \<times> json) list" where
  "union_best rec unionKey options result =
     (let parentDesc = description_of (JObj result);
          allTypes = filter truthy (map (\<lambda>opt. snd (scoreSchemaOption opt)) options);
          bestIdx = best_index options 0 0 (- 1)
      in case rec (options ! bestIdx) of
           Inl e \<Rightarrow> Inl e
         | Inr flattened \<Rightarrow>
             (case describe_selected parentDesc allTypes flattened of
                Inl e \<Rightarrow> Inl e
              | Inr selected \<Rightarrow>
                  Inr (spread (obj_del ''description'' (obj_del unionKey result))
                         (own_entries selected))))"

definition union_step ::
  "(json \<Rightarrow> error + json) \<Rightarrow> string \<Rightarrow> (string \<times> json) list \<Rightarrow> error + (string \<times> json) list" where
  "union_step rec unionKey result =
     (case map_of result unionKey of
        Some (JArr options) \<Rightarrow>
          if options = [] then Inr result
          else
            (case tryMergeEnumFromUnion options of
               Inl e \<Rightarrow> Inl e
             | Inr (Some mergedEnum) \<Rightarrow> Inr (union_enum unionKey mergedEnum result)
             | Inr None \<Rightarrow> union_best rec unionKey options result)
      | _ \<Rightarrow> Inr result)"

fun flattenAnyOfOneOf_fuel :: "nat \<Rightarrow> json \<Rightarrow> error + json" where
  "flattenAnyOfOneOf_fuel n JNull = Inr JNull"
| "flattenAnyOfOneOf_fuel n (JBool b) = Inr (JBool b)"
| "flattenAnyOfOneOf_fuel n (JNum r) = Inr (JNum r)"
| "flattenAnyOfOneOf_fuel n (JStr s) = Inr (JStr s)"
| "flattenAnyOfOneOf_fuel 0 (JArr xs) = Inl OutOfFuel"
| "flattenAnyOfOneOf_fuel 0 (JObj kvs) = Inl OutOfFuel"
| "flattenAnyOfOneOf_fuel (Suc n) (JArr xs) = walk_array (\<lambda>x. flattenAnyOfOneOf_fuel n x) xs"
| "flattenAnyOfOneOf_fuel (Suc n) (JObj kvs) =
     (case union_step (\<lambda>x. flattenAnyOfOneOf_fuel n x) ''anyOf'' kvs of
        Inl e \<Rightarrow> Inl e
      | Inr r1 \<Rightarrow>
          (case union_step (\<lambda>x. flattenAnyOfOneOf_fuel n x) ''oneOf'' r1 of
             Inl e \<Rightarrow> Inl e
           | Inr r2 \<Rightarrow> walk_values (\<lambda>x. flattenAnyOfOneOf_fuel n x) r2))"

text \<open>
  The nesting depth of arrays and objects, and the two phases with the fuel they need.
\<close>

fun depth :: "json \<Rightarrow> nat" where
  "depth (JArr xs) = Suc (foldr max (map depth xs) 0)"
| "depth (JObj kvs) = Suc (foldr max (map (\<lambda>(k, v). depth v) kvs) 0)"
| "depth _ = 0"

definition mergeAllOf :: "json \<Rightarrow> error + json" where
  "mergeAllOf schema = mergeAllOf_fuel (depth schema) schema"

definition flattenAnyOfOneOf :: "json \<Rightarrow> error + json" where
  "flattenAnyOfOneOf schema = flattenAnyOfOneOf_fuel (depth schema) schema"

subsection \<open>The entry point\<close>

text \<open>
  \<open>cleanSchema\<close>: a value that is not an object or array (also \<open>null\<close> and
  \<open>undefined\<close>) gives the default string schema; everything else runs through the
  twelve phases in order, and an exception of a phase leaves the function.
\<close>

definition cleanSchema :: "json \<Rightarrow> error + json" where
  "cleanSchema schema =
     (if \<not> is_object schema then Inr (JObj [(''type'', JStr ''STRING'')])
      else
        bindE (convertRefsToHints schema) (\<lambda>r1.
        bindE (convertConstToEnum r1) (\<lambda>r2.
        bindE (addEnumHints r2) (\<lambda>r3.
        bindE (addAdditionalPropertiesHints r3) (\<lambda>r4.
        bindE (moveConstraintsToDescription r4) (\<lambda>r5.
        bindE (mergeAllOf r5) (\<lambda>r6.
        bindE (flattenAnyOfOneOf r6) (\<lambda>r7.
        bindE (flattenTypeArrays r7) (\<lambda>r8.
        bindE (cleanupRequiredFields (removeUnsupportedKeywords False r8)) (\<lambda>r10.
        Inr (toGeminiFormat (addEmptySchemaPlaceholder r10))))))))))))"

subsection \<open>The shape of a walk\<close>

text \<open>
  \<open>is_walk P N m\<close> says that the phase \<open>P\<close> is the walk with the top-level
  rewriting \<open>N\<close>: it maps arrays, returns primitives, and on an object recurses into
  the values of the node that \<open>N\<close> has rewritten; every call is on a value that is
  smaller in the measure \<open>m\<close>.  \<open>child_rel rec\<close> relates a property of the rewritten
  node to the property that the loop over the values makes of it.  \<open>all_nodes Q v\<close>
  says that every object inside \<open>v\<close>, at any depth and at any position, has a
  property list that satisfies \<open>Q\<close>.
\<close>

definition is_walk ::
  "(json \<Rightarrow> error + json) \<Rightarrow> ((string \<times> json) list \<Rightarrow> error + json) \<Rightarrow> (json \<Rightarrow> nat) \<Rightarrow> bool" where
  "is_walk P N m =
     ((\<forall>xs. P (JArr xs) = walk_array P xs) \<and>
      (\<forall>kvs. P (JObj kvs) =
         (case N kvs of Inl e \<Rightarrow> Inl e | Inr result \<Rightarrow> walk_values P (own_entries result))) \<and>
      (\<forall>v. \<not> is_object v \<longrightarrow> P v = Inr v) \<and>
      (\<forall>xs x. x \<in> set xs \<longrightarrow> m x < m (JArr xs)) \<and>
      (\<forall>kvs r k v. N kvs = Inr r \<longrightarrow> (k, v) \<in> set (own_entries r) \<longrightarrow> is_object v \<longrightarrow>
         m v < m (JObj kvs)))"

definition child_rel :: "(json \<Rightarrow> error + json) \<Rightarrow> string \<times> json \<Rightarrow> string \<times> json \<Rightarrow> bool" where
  "child_rel rec a b =
     (fst b = fst a \<and> (if is_object (snd a) then rec (snd a) = Inr (snd b) else snd b = snd a))"

function all_nodes :: "((string \<times> json) list \<Rightarrow> bool) \<Rightarrow> json \<Rightarrow> bool" where
  "all_nodes Q (JArr xs) = (\<forall>x \<in> set xs. all_nodes Q x)"
| "all_nodes Q (JObj kvs) = (Q kvs \<and> (\<forall>(k, v) \<in> set kvs. all_nodes Q v))"
| "all_nodes Q JNull = True"
| "all_nodes Q (JBool b) = True"
| "all_nodes Q (JNum r) = True"
| "all_nodes Q (JStr s) = True"
  by pat_completeness auto
termination
proof (relation "measure (\<lambda>(Q, v). size v)", goal_cases)
  case 1
  show ?case by simp
next
  case (2 Q xs x)
  from size_elem[OF this] show ?case by simp
next
  case (3 Q kvs x k v)
  then have "(k, v) \<in> set kvs" by simp
  from size_member[OF this] show ?case by simp
qed

subsection \<open>The required fields of a cleaned schema\<close>









section \<open>The request transformer\<close>

text \<open>
  The public request, as \<open>types.ts\<close> declares it.  The request is the body of an HTTP
  call and is not validated, so the tags that the code compares with string literals
  (\<open>role\<close>, \<open>type\<close>) are strings here.  Optional fields are options.  Token counts are
  integers; \<open>temperature\<close> and \<open>top_p\<close> are only passed through and are carried as
  their decimal rendering.
\<close>

record OpenAIContentPart =
  part_type :: string
  part_text :: "string option"
  part_image_url :: "string option"

datatype message_content =
    ContentNull
  | ContentString string
  | ContentParts "OpenAIContentPart list"

record OpenAIToolCall =
  call_ident :: string
  call_type :: string
  call_name :: string
  call_arguments :: string

record OpenAIMessage =
  msg_role :: string
  msg_content :: message_content
  msg_name :: "string option"
  msg_tool_calls :: "OpenAIToolCall list option"
  msg_tool_call_id :: "string option"

record OpenAITool =
  tool_type :: string
  tool_name :: string
  tool_description :: "string option"
  tool_parameters :: "json option"

datatype tool_choice = ChoiceString string | ChoiceObject string string

datatype stop_spec = StopString string | StopList "string list"

record OpenAIRequest =
  req_model :: string
  req_messages :: "OpenAIMessage list"
  req_tools :: "OpenAITool list option"
  req_tool_choice :: "tool_choice option"
  req_stream :: "bool option"
  req_max_tokens :: "int option"
  req_temperature :: "string option"
  req_top_p :: "string option"
  req_stop :: "stop_spec option"

text \<open>
  The internal request.  A part carries exactly one of \<open>text\<close>, \<open>functionCall\<close> and
  \<open>functionResponse\<close>.  The response of a function is either the value that
  \<open>JSON.parse\<close> made of the content, or the wrapper \<open>{content: msg.content}\<close> around
  the content as it came.
\<close>

datatype function_response = Parsed json | Wrapped message_content

datatype AntigravityPart =
    TextPart string
  | FunctionCallPart string json
  | FunctionResponsePart string function_response

record AntigravityContent =
  c_role :: string
  c_parts :: "AntigravityPart list"

record FunctionDeclaration =
  decl_name :: string
  decl_description :: "string option"
  decl_parameters :: json

record AntigravityTool =
  functionDeclarations :: "FunctionDeclaration list"

record FunctionCallingConfig =
  fc_mode :: string
  allowedFunctionNames :: "string list option"

record ThinkingConfig =
  includeThoughts :: bool
  thinkingLevel :: "string option"
  thinkingBudget :: "int option"

record GenerationConfig =
  temperature :: "string option"
  maxOutputTokens :: "int option"
  topP :: "string option"
  stopSequences :: "string list option"
  candidateCount :: nat
  thinkingConfig :: "ThinkingConfig option"

text \<open>
  \<open>toolConfig\<close> is \<open>None\<close> when the field is not set, \<open>Some None\<close> for the empty
  object \<open>{}\<close>.  \<open>generationConfig\<close> is always assigned by \<open>transformRequest\<close>.
\<close>

record AntigravityRequest =
  contents :: "AntigravityContent list"
  systemInstruction :: "AntigravityPart list option"
  tools :: "AntigravityTool list option"
  toolConfig :: "FunctionCallingConfig option option"
  generationConfig :: GenerationConfig

text \<open>\<open>extractText\<close>.\<close>

definition extractText :: "message_content \<Rightarrow> string" where
  "extractText c =
     (case c of
        ContentNull \<Rightarrow> []
      | ContentString s \<Rightarrow> s
      | ContentParts ps \<Rightarrow>
          join_with ''\<newline>'' (map (\<lambda>p. case part_text p of None \<Rightarrow> [] | Some t \<Rightarrow> t) ps))"

text \<open>
  \<open>transformMessage\<close>, in its three steps: the parts of the content, the function
  calls of an assistant message, and the function response of a tool message.
\<close>

definition content_parts :: "message_content \<Rightarrow> AntigravityPart list" where
  "content_parts c =
     (case c of
        ContentNull \<Rightarrow> []
      | ContentString s \<Rightarrow> if s \<noteq> [] then [TextPart s] else []
      | ContentParts ps \<Rightarrow>
          concat (map (\<lambda>p. if part_type p = ''text'' \<and> part_text p \<noteq> None \<and> part_text p \<noteq> Some []
                            then [TextPart (the (part_text p))] else []) ps))"

definition call_part :: "host \<Rightarrow> OpenAIToolCall \<Rightarrow> AntigravityPart list" where
  "call_part h call =
     (if call_type call = ''function'' then
        (case JSON_parse h (call_arguments call) of
           Some args \<Rightarrow> [FunctionCallPart (call_name call) args]
         | None \<Rightarrow> [FunctionCallPart (call_name call) (JObj [])])
      else [])"

definition call_parts :: "host \<Rightarrow> OpenAIMessage \<Rightarrow> AntigravityPart list" where
  "call_parts h msg =
     (if msg_role msg = ''assistant'' then
        (case msg_tool_calls msg of
           Some calls \<Rightarrow> concat (map (call_part h) calls)
         | None \<Rightarrow> [])
      else [])"

definition tool_response :: "host \<Rightarrow> OpenAIMessage \<Rightarrow> AntigravityPart" where
  "tool_response h msg =
     FunctionResponsePart
       (case msg_name msg of None \<Rightarrow> ''unknown_tool'' | Some n \<Rightarrow> if n \<noteq> [] then n else ''unknown_tool'')
       (case msg_content msg of
          ContentString s \<Rightarrow>
            (case JSON_parse h s of Some v \<Rightarrow> Parsed v | None \<Rightarrow> Wrapped (msg_content msg))
        | _ \<Rightarrow> Wrapped (msg_content msg))"

definition transformMessage :: "host \<Rightarrow> OpenAIMessage \<Rightarrow> AntigravityContent option" where
  "transformMessage h msg =
     (let parts = content_parts (msg_content msg) @ call_parts h msg
      in if msg_role msg = ''tool'' \<and> msg_tool_call_id msg \<noteq> None \<and> msg_tool_call_id msg \<noteq> Some []
         then Some \<lparr>c_role = ''user'', c_parts = parts @ [tool_response h msg]\<rparr>
         else if parts = [] then None
         else Some \<lparr>c_role = (if msg_role msg = ''system'' then ''system''
                                else if msg_role msg = ''assistant'' then ''model'' else ''user''),
                     c_parts = parts\<rparr>)"

text \<open>
  The loop over the messages.  A node whose role is the role of the last node of the
  list is merged into it, every other node is appended.
\<close>

definition push_content :: "AntigravityContent list \<Rightarrow> AntigravityContent \<Rightarrow> AntigravityContent list" where
  "push_content cs c =
     (if cs \<noteq> [] \<and> c_role (last cs) = c_role c
      then butlast cs @ [(last cs)\<lparr>c_parts := c_parts (last cs) @ c_parts c\<rparr>]
      else cs @ [c])"

fun transformMessages ::
  "host \<Rightarrow> OpenAIMessage list \<Rightarrow> AntigravityContent list \<Rightarrow> AntigravityContent list" where
  "transformMessages h [] cs = cs"
| "transformMessages h (msg # rest) cs =
     (if msg_role msg = ''system'' then transformMessages h rest cs
      else
        (case transformMessage h msg of
           None \<Rightarrow> transformMessages h rest cs
         | Some c \<Rightarrow> transformMessages h rest (push_content cs c)))"

text \<open>
  \<open>transformTools\<close>: a tool without parameters passes \<open>undefined\<close> to \<open>cleanSchema\<close>,
  which answers with the default schema, as it does for \<open>null\<close>.
\<close>

definition transformTool :: "OpenAITool \<Rightarrow> error + FunctionDeclaration option" where
  "transformTool tool =
     (if tool_type tool \<noteq> ''function'' then Inr None
      else
        (case cleanSchema (case tool_parameters tool of None \<Rightarrow> JNull | Some p \<Rightarrow> p) of
           Inl e \<Rightarrow> Inl e
         | Inr params \<Rightarrow>
             Inr (Some \<lparr>decl_name = tool_name tool, decl_description = tool_description tool,
                         decl_parameters = params\<rparr>)))"

definition transformTools :: "OpenAITool list \<Rightarrow> error + AntigravityTool list" where
  "transformTools ts =
     (case mapE transformTool ts of
        Inl e \<Rightarrow> Inl e
      | Inr ds \<Rightarrow>
          let declarations = concat (map (\<lambda>d. case d of None \<Rightarrow> [] | Some x \<Rightarrow> [x]) ds)
          in if declarations = [] then Inr []
             else Inr [\<lparr>functionDeclarations = declarations\<rparr>])"

definition transformToolChoice :: "tool_choice option \<Rightarrow> FunctionCallingConfig option option" where
  "transformToolChoice tc =
     (case tc of
        None \<Rightarrow> None
      | Some (ChoiceString s) \<Rightarrow>
          if s = [] then None
          else if s = ''auto'' then Some (Some \<lparr>fc_mode = ''AUTO'', allowedFunctionNames = None\<rparr>)
          else if s = ''none'' then Some (Some \<lparr>fc_mode = ''NONE'', allowedFunctionNames = None\<rparr>)
          else if s = ''required'' then Some (Some \<lparr>fc_mode = ''ANY'', allowedFunctionNames = None\<rparr>)
          else Some None
      | Some (ChoiceObject ty name) \<Rightarrow>
          if ty = ''function''
          then Some (Some \<lparr>fc_mode = ''ANY'', allowedFunctionNames = Some [name]\<rparr>)
          else Some None)"

text \<open>\<open>toLowerCase\<close> on ASCII text.\<close>

definition toLowerCase :: "string \<Rightarrow> string" where
  "toLowerCase s =
     map (\<lambda>c. if (65::nat) \<le> of_char c \<and> of_char c \<le> (90::nat)
              then char_of (of_char c + (32::nat)) else c) s"

definition baseGenerationConfig :: "OpenAIRequest \<Rightarrow> GenerationConfig" where
  "baseGenerationConfig request =
     \<lparr>temperature = req_temperature request,
      maxOutputTokens = req_max_tokens request,
      topP = req_top_p request,
      stopSequences =
        (case req_stop request of
           None \<Rightarrow> None
         | Some (StopList l) \<Rightarrow> Some l
         | Some (StopString s) \<Rightarrow> if s \<noteq> [] then Some [s] else None),
      candidateCount = 1,
      thinkingConfig = None\<rparr>"

text \<open>
  The thinking heuristic.  The test \<open>!result.generationConfig.thinkingConfig\<close> is
  always true at this point: the configuration has just been built without the field.
\<close>

definition enableThinking :: "string \<Rightarrow> GenerationConfig \<Rightarrow> GenerationConfig" where
  "enableThinking model gc =
     (let lowerModel = toLowerCase model;
          isThinkingModel = (includes_str lowerModel ''thinking'' \<or> includes_str lowerModel ''gemini-3''
                              \<or> includes_str lowerModel ''opus'');
          isGemini3 = includes_str lowerModel ''gemini-3'';
          isGemini25 = includes_str lowerModel ''gemini-2.5''
      in if isThinkingModel \<and> thinkingConfig gc = None then
           (let gc1 = gc\<lparr>thinkingConfig :=
                  Some (if isGemini3
                        then \<lparr>includeThoughts = True, thinkingLevel = Some ''medium'', thinkingBudget = None\<rparr>
                        else if isGemini25
                        then \<lparr>includeThoughts = True, thinkingLevel = None, thinkingBudget = Some 16000\<rparr>
                        else \<lparr>includeThoughts = True, thinkingLevel = None, thinkingBudget = Some 16000\<rparr>)\<rparr>
            in if (case maxOutputTokens gc1 of None \<Rightarrow> True | Some m \<Rightarrow> m = 0 \<or> m < 8192)
               then gc1\<lparr>maxOutputTokens := Some 65535\<rparr> else gc1)
         else gc)"

text \<open>
  \<open>transformRequest\<close>.  The only step that can raise is the cleaning of a tool's
  parameter schema; the exception leaves the function.
\<close>

definition transformRequest :: "host \<Rightarrow> OpenAIRequest \<Rightarrow> error + AntigravityRequest" where
  "transformRequest h request =
     (case (case req_tools request of
              None \<Rightarrow> Inr None
            | Some ts \<Rightarrow>
                if ts \<noteq> [] then (case transformTools ts of Inl e \<Rightarrow> Inl e | Inr r \<Rightarrow> Inr (Some r))
                else Inr None) of
        Inl e \<Rightarrow> Inl e
      | Inr ts \<Rightarrow>
          Inr \<lparr>contents = transformMessages h (req_messages request) [],
               systemInstruction =
                 (case find (\<lambda>m. msg_role m = ''system'') (req_messages request) of
                    None \<Rightarrow> None
                  | Some m \<Rightarrow> Some [TextPart (extractText (msg_content m))]),
               tools = ts,
               toolConfig = transformToolChoice (req_tool_choice request),
               generationConfig = enableThinking (req_model request) (baseGenerationConfig request)\<rparr>)"

definition user_message :: "string \<Rightarrow> OpenAIMessage" where
  "user_message txt =
     \<lparr>msg_role = ''user'', msg_content = ContentString txt, msg_name = None,
      msg_tool_calls = None, msg_tool_call_id = None\<rparr>"

definition example_request :: "string \<Rightarrow> OpenAIMessage list \<Rightarrow> OpenAIRequest" where
  "example_request model msgs =
     \<lparr>req_model = model, req_messages = msgs, req_tools = None, req_tool_choice = None,
      req_stream = None, req_max_tokens = None, req_temperature = None, req_top_p = None,
      req_stop = None\<rparr>"

text \<open>
  \<open>extends cs ds\<close>: the list \<open>ds\<close> continues \<open>cs\<close>; each node of \<open>cs\<close> is still
  there, at its place and with its role, and its parts may have been followed by more.
\<close>

definition extends :: "AntigravityContent list \<Rightarrow> AntigravityContent list \<Rightarrow> bool" where
  "extends cs ds =
     (length cs \<le> length ds \<and>
      (\<forall>i < length cs. c_role (ds ! i) = c_role (cs ! i) \<and>
                        (\<exists>ys. c_parts (ds ! i) = c_parts (cs ! i) @ ys)))"

text \<open>More messages and tools for the examples.\<close>

definition tool_message :: "string \<Rightarrow> string \<Rightarrow> string option \<Rightarrow> OpenAIMessage" where
  "tool_message tid txt name =
     \<lparr>msg_role = ''tool'', msg_content = ContentString txt, msg_name = name,
      msg_tool_calls = None, msg_tool_call_id = Some tid\<rparr>"

definition retrieval_tool :: OpenAITool where
  "retrieval_tool =
     \<lparr>tool_type = ''retrieval'', tool_name = ''lookup'', tool_description = None,
      tool_parameters = None\<rparr>"

text \<open>
  For the proof that the depth is enough fuel: \<open>good rec d\<close> says that the recursive
  call \<open>rec\<close> answers on every argument of depth at most \<open>d\<close>, with a result that is
  not deeper than the argument or with a TypeError; \<open>vals_le kvs m\<close> bounds the depth
  of the values of a property list.
\<close>

definition good :: "(json \<Rightarrow> error + json) \<Rightarrow> nat \<Rightarrow> bool" where
  "good rec d = (\<forall>x. depth x \<le> d \<longrightarrow>
       (\<exists>r. rec x = Inr r \<and> depth r \<le> depth x) \<or> rec x = Inl TypeError)"

definition vals_le :: "(string \<times> json) list \<Rightarrow> nat \<Rightarrow> bool" where
  "vals_le kvs m = (\<forall>(k, v) \<in> set kvs. depth v \<le> m)"

text \<open>
  For the collapse of a union of constants: the branch \<open>{const: c}\<close> as it enters
  the pipeline, after \<open>convertConstToEnum\<close> and after \<open>addEnumHints\<close>, and the union
  \<open>{anyOf: [...]}\<close> of such branches.
\<close>

definition const_option :: "json \<Rightarrow> json" where
  "const_option c = JObj [(''const'', c)]"

definition enum_option :: "json \<Rightarrow> json" where
  "enum_option c = JObj [(''enum'', JArr [JStr (text_of c)]), (''type'', JStr ''string'')]"

definition hinted_option :: "json \<Rightarrow> json" where
  "hinted_option c =
     JObj [(''enum'', JArr [JStr (text_of c)]), (''type'', JStr ''string''),
           (''description'', JStr (''(Allowed: '' @ text_of c @ '')''))]"

definition const_union :: "(json \<Rightarrow> json) \<Rightarrow> json list \<Rightarrow> json" where
  "const_union f cs = JObj [(''anyOf'', JArr (map f cs))]"

section \<open>Properties\<close>

text \<open>
  C5: both response transformers map STOP to "stop", MAX_TOKENS to "length", SAFETY and
  RECITATION to "content_filter" and OTHER to "stop"; on every other reason, and on an
  absent one, the single-shot transformer answers "stop" and the streaming transformer
  answers null.
\<close>

theorem finish_reason_table:
  "mapFinishReason_single (Some (JStr ''STOP'')) = Some ''stop'' \<and>
   mapFinishReason_stream (Some (JStr ''STOP'')) = Some ''stop'' \<and>
   mapFinishReason_single (Some (JStr ''MAX_TOKENS'')) = Some ''length'' \<and>
   mapFinishReason_stream (Some (JStr ''MAX_TOKENS'')) = Some ''length'' \<and>
   mapFinishReason_single (Some (JStr ''SAFETY'')) = Some ''content_filter'' \<and>
   mapFinishReason_stream (Some (JStr ''SAFETY'')) = Some ''content_filter'' \<and>
   mapFinishReason_single (Some (JStr ''RECITATION'')) = Some ''content_filter'' \<and>
   mapFinishReason_stream (Some (JStr ''RECITATION'')) = Some ''content_filter'' \<and>
   mapFinishReason_single (Some (JStr ''OTHER'')) = Some ''stop'' \<and>
   mapFinishReason_stream (Some (JStr ''OTHER'')) = Some ''stop'' \<and>
   (\<forall>r. r \<notin> known_reasons \<longrightarrow>
      mapFinishReason_single r = Some ''stop'' \<and> mapFinishReason_stream r = None)"
proof -
  have other: "mapFinishReason_single r = Some ''stop'' \<and> mapFinishReason_stream r = None"
    if "r \<notin> known_reasons" for r
  proof (cases r)
    case None
    then show ?thesis by simp
  next
    case (Some v)
    with that show ?thesis
      by (cases v) (auto simp: known_reasons_def)
  qed
  then show ?thesis by simp
qed

theorem finish_reason_table_witness:
  "Some (JStr ''BLOCKLIST'') \<notin> known_reasons \<and> None \<notin> known_reasons \<and>
   mapFinishReason_single (Some (JStr ''BLOCKLIST'')) = Some ''stop'' \<and>
   mapFinishReason_stream (Some (JStr ''BLOCKLIST'')) = None \<and>
   mapFinishReason_single None = Some ''stop'' \<and>
   mapFinishReason_stream None = None"
  using finish_reason_table by (simp add: known_reasons_def)

subsection \<open>The frame parser\<close>

lemma parse_lines_has_data:
  "\<forall>e \<in> set events. has_data e \<Longrightarrow> \<forall>e \<in> set (parse_lines ls events cur). has_data e"
proof (induction ls arbitrary: events cur)
  case Nil
  then show ?case by simp
next
  case (Cons line rest)
  have step: "\<forall>e \<in> set (parse_lines rest ev' cur'). has_data e"
    if "\<forall>e \<in> set ev'. has_data e" for ev' cur'
    using Cons.IH that by blast
  have ev2: "\<forall>e \<in> set (if has_data cur then events @ [cur] else events). has_data e"
    using Cons.prems by simp
  show ?case
    unfolding parse_lines.simps Let_def
    using step[OF ev2] step[OF Cons.prems] by presburger
qed

lemma has_data_simps:
  "has_data (cur\<lparr>ev_data := Some d\<rparr>) = (d \<noteq> [])"
  "has_data (cur\<lparr>ev_event := x\<rparr>) = has_data cur"
  "has_data (cur\<lparr>ev_id := x\<rparr>) = has_data cur"
  "\<not> has_data empty_event"
  by (simp_all add: has_data_def empty_event_def)

lemma parse_lines_no_data:
  "\<not> has_data cur \<Longrightarrow> \<forall>l \<in> set ls. data_value l = None \<or> data_value l = Some [] \<Longrightarrow>
   parse_lines ls [] cur = []"
proof (induction ls arbitrary: cur)
  case Nil
  then show ?case by simp
next
  case (Cons line rest)
  from Cons.prems have dv: "data_value line = None \<or> data_value line = Some []"
    and rest: "\<forall>l \<in> set rest. data_value l = None \<or> data_value l = Some []"
    by simp_all
  have step: "parse_lines rest [] c = []" if "\<not> has_data c" for c
    using Cons.IH[OF that rest] .
  show ?case
  proof (cases "trim line = []")
    case True
    then show ?thesis using Cons.prems(1) step[of empty_event] by (simp add: has_data_simps)
  next
    case blank: False
    show ?thesis
    proof (cases "CHR '':'' \<in> set line")
      case False
      then show ?thesis using blank step[OF Cons.prems(1)] by simp
    next
      case True
      show ?thesis
      proof (cases "trim (takeWhile (\<lambda>c. c \<noteq> CHR '':'') line) = ''data''")
        case True
        with blank \<open>CHR '':'' \<in> set line\<close> dv
        have "trimStart (tl (dropWhile (\<lambda>c. c \<noteq> CHR '':'') line)) = []"
          by (simp add: data_value_def)
        then show ?thesis
          using blank \<open>CHR '':'' \<in> set line\<close> True Cons.prems(1)
            step[of "cur\<lparr>ev_data := Some []\<rparr>"]
          by (simp add: has_data_simps)
      next
        case False
        then show ?thesis
          using blank \<open>CHR '':'' \<in> set line\<close> Cons.prems(1)
            step[of "cur\<lparr>ev_event := x\<rparr>" for x] step[of "cur\<lparr>ev_id := x\<rparr>" for x]
            step[of cur]
          by (simp add: has_data_simps Let_def)
      qed
    qed
  qed
qed

text \<open>
  C10: every event that \<open>parseSSEChunk\<close> returns has a \<open>data\<close> field, and the field
  is not the empty string.  In particular a chunk in which no line contributes a
  non-empty \<open>data\<close> value (only \<open>event:\<close> and \<open>id:\<close> lines, or \<open>data:\<close> lines with
  an empty value) yields no event at all, whether the event is closed by a blank line
  or by the end of the input.
\<close>

theorem parseSSEChunk_data_nonempty:
  "(\<forall>e \<in> set (parseSSEChunk chunk). \<exists>d. ev_data e = Some d \<and> d \<noteq> []) \<and>
   ((\<forall>l \<in> set (split_lines [] chunk). data_value l = None \<or> data_value l = Some []) \<longrightarrow>
      parseSSEChunk chunk = [])"
proof -
  have "\<forall>e \<in> set (parseSSEChunk chunk). has_data e"
    unfolding parseSSEChunk_def by (rule parse_lines_has_data) simp
  then have a: "\<forall>e \<in> set (parseSSEChunk chunk). \<exists>d. ev_data e = Some d \<and> d \<noteq> []"
    by (auto simp: has_data_def split: option.splits)
  have b: "parseSSEChunk chunk = []"
    if "\<forall>l \<in> set (split_lines [] chunk). data_value l = None \<or> data_value l = Some []"
    unfolding parseSSEChunk_def
    by (rule parse_lines_no_data[OF _ that]) (simp add: has_data_simps)
  from a b show ?thesis by blast
qed

theorem parseSSEChunk_data_nonempty_witness:
  "list_all (\<lambda>l. data_value l = None \<or> data_value l = Some [])
     (split_lines [] ''event: x\<newline>id: 7\<newline>\<newline>data:\<newline>\<newline>'') \<and>
   parseSSEChunk ''event: x\<newline>id: 7\<newline>\<newline>data:\<newline>\<newline>'' = [] \<and>
   parseSSEChunk ''data: a\<newline>data: b\<newline>event: m\<newline>\<newline>data: tail'' =
     [\<lparr>ev_event = Some ''m'', ev_data = Some ''a\<newline>b'', ev_id = None\<rparr>,
      \<lparr>ev_event = None, ev_data = Some ''tail'', ev_id = None\<rparr>] \<and>
   list_all (\<lambda>e. \<exists>d. ev_data e = Some d \<and> d \<noteq> [])
     (parseSSEChunk ''data: a\<newline>data: b\<newline>event: m\<newline>\<newline>data: tail'')"
proof -
  have h: "\<forall>l \<in> set (split_lines [] ''event: x\<newline>id: 7\<newline>\<newline>data:\<newline>\<newline>'').
      data_value l = None \<or> data_value l = Some []"
    by (simp add: data_value_def trim_def trimStart_def is_space_def)
  have r: "parseSSEChunk ''event: x\<newline>id: 7\<newline>\<newline>data:\<newline>\<newline>'' = []"
    using parseSSEChunk_data_nonempty[of "''event: x\<newline>id: 7\<newline>\<newline>data:\<newline>\<newline>''"] h
    by blast
  have e: "parseSSEChunk ''data: a\<newline>data: b\<newline>event: m\<newline>\<newline>data: tail'' =
     [\<lparr>ev_event = Some ''m'', ev_data = Some ''a\<newline>b'', ev_id = None\<rparr>,
      \<lparr>ev_event = None, ev_data = Some ''tail'', ev_id = None\<rparr>]"
    by (simp add: parseSSEChunk_def trim_def trimStart_def is_space_def has_data_def
        empty_event_def)
  from parseSSEChunk_data_nonempty[of "''data: a\<newline>data: b\<newline>event: m\<newline>\<newline>data: tail''"]
  have a: "\<forall>e \<in> set (parseSSEChunk ''data: a\<newline>data: b\<newline>event: m\<newline>\<newline>data: tail'').
      \<exists>d. ev_data e = Some d \<and> d \<noteq> []"
    by blast
  from h r e a show ?thesis unfolding list_all_iff by blast
qed

subsection \<open>The streaming transformer\<close>

lemma not_role_chunks [simp]:
  "\<not> is_role_chunk (content_chunk st t)"
  "\<not> is_role_chunk (tool_chunk h st fc)"
  "\<not> is_role_chunk (finish_chunk st fr)"
  "is_role_chunk (role_chunk st)"
  by (simp_all add: is_role_chunk_def content_chunk_def tool_chunk_def finish_chunk_def
      role_chunk_def mk_chunk_def)




























subsection \<open>The schema cleaner\<close>


lemma mapE_prims:
  "(\<forall>x \<in> set xs. f x = Inr x) \<Longrightarrow> mapE f xs = Inr xs"
  by (induction xs) simp_all


lemma printable_prim: "\<not> is_object c \<Longrightarrow> printable c"
  by (cases c) simp_all

lemma js_String_prim: "\<not> is_object c \<Longrightarrow> js_String c = Inr (text_of c)"
  by (simp add: js_String_def printable_prim)

lemma prim_fixed:
  assumes "\<not> is_object x"
  shows "convertRefsToHints x = Inr x" "convertConstToEnum x = Inr x" "addEnumHints x = Inr x"
    "addAdditionalPropertiesHints x = Inr x" "moveConstraintsToDescription x = Inr x"
    "flattenTypeArrays x = Inr x" "cleanupRequiredFields x = Inr x" "addEmptySchemaPlaceholder x = x"
    "removeUnsupportedKeywords b x = x" "toGeminiFormat x = x"
    "mergeAllOf_fuel n x = Inr x" "flattenAnyOfOneOf_fuel n x = Inr x"
  using assms by (cases x; simp)+

lemma is_walk_phases:
  "is_walk convertRefsToHints refs_node size"
  "is_walk convertConstToEnum const_node size"
  "is_walk addEnumHints enum_node size"
  "is_walk addAdditionalPropertiesHints additionalProperties_node size"
  "is_walk moveConstraintsToDescription constraints_node size"
  "is_walk flattenTypeArrays typeArray_node size"
  "is_walk cleanupRequiredFields required_node size"
  unfolding is_walk_def
  using size_elem derived_entries[OF derived_refs] derived_entries[OF derived_const]
    derived_entries[OF derived_enum] derived_entries[OF derived_additionalProperties]
    derived_entries[OF derived_constraints] derived_entries[OF derived_typeArray]
    derived_entries[OF derived_required]
  by (simp_all add: prim_fixed)

lemma prims_fixed:
  assumes "\<forall>x \<in> set xs. \<not> is_object x"
  shows "convertRefsToHints (JArr xs) = Inr (JArr xs)" "convertConstToEnum (JArr xs) = Inr (JArr xs)"
    "addEnumHints (JArr xs) = Inr (JArr xs)"
    "addAdditionalPropertiesHints (JArr xs) = Inr (JArr xs)"
    "moveConstraintsToDescription (JArr xs) = Inr (JArr xs)"
    "flattenTypeArrays (JArr xs) = Inr (JArr xs)" "cleanupRequiredFields (JArr xs) = Inr (JArr xs)"
    "addEmptySchemaPlaceholder (JArr xs) = JArr xs"
    "removeUnsupportedKeywords b (JArr xs) = JArr xs" "toGeminiFormat (JArr xs) = JArr xs"
  using assms by (simp_all add: prim_fixed map_idI walk_array_def mapE_prims)

lemma prims_fixed_fuel:
  assumes "\<forall>x \<in> set xs. \<not> is_object x"
  shows "mergeAllOf_fuel (Suc n) (JArr xs) = Inr (JArr xs)"
    "flattenAnyOfOneOf_fuel (Suc n) (JArr xs) = Inr (JArr xs)"
  using assms by (simp_all add: walk_array_def mapE_prims prim_fixed)

lemma option_phase1:
  assumes "\<not> is_object c"
  shows "convertRefsToHints (const_option c) = Inr (const_option c)"
    and "convertConstToEnum (const_option c) = Inr (enum_option c)"
    and "addEnumHints (enum_option c) = Inr (hinted_option c)"
    and "addAdditionalPropertiesHints (hinted_option c) = Inr (hinted_option c)"
    and "moveConstraintsToDescription (hinted_option c) = Inr (hinted_option c)"
  using assms
  by (simp_all add: const_option_def enum_option_def hinted_option_def refs_node_def const_node_def
      enum_node_def additionalProperties_node_def constraints_node_def constraint_step_def
      UNSUPPORTED_CONSTRAINTS_def or_default_def obj_del_def appendDescriptionHint_def js_join_def
      js_String_prim walk_values_def walk_array_def Let_def)

lemma union_phase1:
  assumes "\<forall>c \<in> set cs. \<not> is_object c"
  shows "convertRefsToHints (const_union const_option cs) = Inr (const_union const_option cs)"
    and "convertConstToEnum (const_union const_option cs) = Inr (const_union enum_option cs)"
    and "addEnumHints (const_union enum_option cs) = Inr (const_union hinted_option cs)"
    and "addAdditionalPropertiesHints (const_union hinted_option cs) = Inr (const_union hinted_option cs)"
    and "moveConstraintsToDescription (const_union hinted_option cs) = Inr (const_union hinted_option cs)"
proof -
  from assms have m: "mapE convertRefsToHints (map const_option cs) = Inr (map const_option cs)"
    "mapE convertConstToEnum (map const_option cs) = Inr (map enum_option cs)"
    "mapE addEnumHints (map enum_option cs) = Inr (map hinted_option cs)"
    "mapE addAdditionalPropertiesHints (map hinted_option cs) = Inr (map hinted_option cs)"
    "mapE moveConstraintsToDescription (map hinted_option cs) = Inr (map hinted_option cs)"
    by (induction cs) (simp_all add: option_phase1)
  show "convertRefsToHints (const_union const_option cs) = Inr (const_union const_option cs)"
    using m(1) by (simp add: const_union_def refs_node_def walk_values_def walk_array_def)
  show "convertConstToEnum (const_union const_option cs) = Inr (const_union enum_option cs)"
    using m(2) by (simp add: const_union_def const_node_def walk_values_def walk_array_def)
  show "addEnumHints (const_union enum_option cs) = Inr (const_union hinted_option cs)"
    using m(3) by (simp add: const_union_def enum_node_def walk_values_def walk_array_def)
  show "addAdditionalPropertiesHints (const_union hinted_option cs) = Inr (const_union hinted_option cs)"
    using m(4) by (simp add: const_union_def additionalProperties_node_def walk_values_def walk_array_def)
  show "moveConstraintsToDescription (const_union hinted_option cs) = Inr (const_union hinted_option cs)"
    using m(5) by (simp add: const_union_def constraints_node_def constraint_step_def
        UNSUPPORTED_CONSTRAINTS_def walk_values_def walk_array_def)
qed

lemma foldr_max_const:
  "xs \<noteq> [] \<Longrightarrow> \<forall>x \<in> set xs. f x = (k::nat) \<Longrightarrow> foldr max (map f xs) 0 = k"
proof (induction xs)
  case Nil
  then show ?case by simp
next
  case (Cons a xs)
  show ?case
  proof (cases "xs = []")
    case True
    with Cons.prems show ?thesis by simp
  next
    case False
    with Cons have "foldr max (map f xs) 0 = k" by simp
    with Cons.prems show ?thesis by simp
  qed
qed

lemma depth_hinted_union: "cs \<noteq> [] \<Longrightarrow> depth (const_union hinted_option cs) = 4"
proof -
  assume ne: "cs \<noteq> []"
  have "depth (hinted_option c) = 2" for c by (simp add: hinted_option_def)
  with ne have "foldr max (map depth (map hinted_option cs)) 0 = 2"
    using foldr_max_const[of "map hinted_option cs" depth 2] by simp
  then show ?thesis by (simp add: const_union_def)
qed

lemma mergeAllOf_hinted_union:
  "cs \<noteq> [] \<Longrightarrow> mergeAllOf (const_union hinted_option cs) = Inr (const_union hinted_option cs)"
proof -
  assume ne: "cs \<noteq> []"
  have one: "mergeAllOf_fuel 2 (hinted_option c) = Inr (hinted_option c)" for c
    by (simp add: hinted_option_def numeral_2_eq_2 allOf_node_def walk_values_def walk_array_def)
  then have "mapE (\<lambda>x. mergeAllOf_fuel 2 x) (map hinted_option cs) = Inr (map hinted_option cs)"
    by (intro mapE_prims) auto
  then have "mergeAllOf_fuel 4 (const_union hinted_option cs) = Inr (const_union hinted_option cs)"
    by (simp add: const_union_def eval_nat_numeral allOf_node_def walk_values_def walk_array_def)
  with depth_hinted_union[OF ne] show ?thesis by (simp add: mergeAllOf_def)
qed

lemma mapE_js_String_prims:
  "\<forall>c \<in> set cs. \<not> is_object c \<Longrightarrow> mapE js_String cs = Inr (map text_of cs)"
  by (induction cs) (simp_all add: js_String_prim)

lemma enum_loop_hinted:
  "enum_loop (map hinted_option cs) acc = Inr (Some (acc @ map text_of cs))"
  by (induction cs arbitrary: acc)
    (simp_all add: hinted_option_def or_default_def is_array_def elements_def js_String_def)

lemma flatten_hinted_union:
  assumes ne: "cs \<noteq> []"
  shows "flattenAnyOfOneOf (const_union hinted_option cs) =
         Inr (JObj [(''type'', JStr ''string''), (''enum'', JArr (map (\<lambda>c. JStr (text_of c)) cs))])"
proof -
  have e: "tryMergeEnumFromUnion (map hinted_option cs) = Inr (Some (map text_of cs))"
    using ne by (simp add: tryMergeEnumFromUnion_def enum_loop_hinted)
  have u1: "union_step rec ''anyOf'' [(''anyOf'', JArr (map hinted_option cs))] =
        Inr [(''type'', JStr ''string''), (''enum'', JArr (map (\<lambda>c. JStr (text_of c)) cs))]" for rec
    using ne e
    by (simp add: union_step_def union_enum_def description_of_def obj_del_def Let_def comp_def)
  have u2: "union_step rec ''oneOf'' [(''type'', JStr ''string''), (''enum'', JArr (map (\<lambda>c. JStr (text_of c)) cs))] =
        Inr [(''type'', JStr ''string''), (''enum'', JArr (map (\<lambda>c. JStr (text_of c)) cs))]" for rec
    by (simp add: union_step_def)
  have arr: "flattenAnyOfOneOf_fuel 3 (JArr (map (\<lambda>c. JStr (text_of c)) cs)) =
        Inr (JArr (map (\<lambda>c. JStr (text_of c)) cs))"
    using prims_fixed_fuel(2)[of "map (\<lambda>c. JStr (text_of c)) cs" 2] by (simp add: eval_nat_numeral)
  have "flattenAnyOfOneOf_fuel 4 (const_union hinted_option cs) =
        Inr (JObj [(''type'', JStr ''string''), (''enum'', JArr (map (\<lambda>c. JStr (text_of c)) cs))])"
    using arr by (simp add: const_union_def eval_nat_numeral u1 u2 walk_values_def)
  with depth_hinted_union[OF ne] show ?thesis by (simp add: flattenAnyOfOneOf_def)
qed

lemma upper_string: "toUpperCase ''string'' = ''STRING''"
  by code_simp

lemma enum_schema_phases:
  assumes "\<forall>x \<in> set xs. \<not> is_object x"
  shows "flattenTypeArrays (JObj [(''type'', JStr ''string''), (''enum'', JArr xs)]) =
           Inr (JObj [(''type'', JStr ''string''), (''enum'', JArr xs)])"
    and "removeUnsupportedKeywords False (JObj [(''type'', JStr ''string''), (''enum'', JArr xs)]) =
           JObj [(''type'', JStr ''string''), (''enum'', JArr xs)]"
    and "cleanupRequiredFields (JObj [(''type'', JStr ''string''), (''enum'', JArr xs)]) =
           Inr (JObj [(''type'', JStr ''string''), (''enum'', JArr xs)])"
    and "toGeminiFormat (addEmptySchemaPlaceholder (JObj [(''type'', JStr ''string''), (''enum'', JArr xs)])) =
           JObj [(''type'', JStr ''STRING''), (''enum'', JArr xs)]"
proof -
  let ?s = "JObj [(''type'', JStr ''string''), (''enum'', JArr xs)]"
  note p = prims_fixed[OF assms]
  show "flattenTypeArrays ?s = Inr ?s"
    using p(6) by (simp add: typeArray_node_def walk_values_def)
  show "removeUnsupportedKeywords False ?s = ?s"
    using p(9)[of False] by (simp add: UNSUPPORTED_KEYWORDS_def UNSUPPORTED_CONSTRAINTS_def)
  show "cleanupRequiredFields ?s = Inr ?s"
    using p(7) by (simp add: required_node_def walk_values_def)
  have "addEmptySchemaPlaceholder ?s = ?s" using p(8) by (simp add: placeholder_node_def)
  moreover have "toGeminiFormat ?s = JObj [(''type'', JStr ''STRING''), (''enum'', JArr xs)]"
    by (simp add: is_string_def string_of_def is_array_def is_object_def upper_string
        ensure_items_def inherited_def)
  ultimately show "toGeminiFormat (addEmptySchemaPlaceholder ?s) =
      JObj [(''type'', JStr ''STRING''), (''enum'', JArr xs)]" by simp
qed

text \<open>
  C8: \<open>cleanSchema\<close> maps \<open>{anyOf: [{const: "a"}, {const: "b"}]}\<close> to exactly
  \<open>{type: "STRING", enum: ["a", "b"]}\<close>.  In general a non-empty union whose branches
  are all constants (strings, numbers, booleans, null) collapses to the string-typed
  enum of the constants' texts.
\<close>

theorem cleanSchema_const_union:
  "cleanSchema (JObj [(''anyOf'', JArr [JObj [(''const'', JStr ''a'')], JObj [(''const'', JStr ''b'')]])]) =
     Inr (JObj [(''type'', JStr ''STRING''), (''enum'', JArr [JStr ''a'', JStr ''b''])]) \<and>
   (cs \<noteq> [] \<and> (\<forall>c \<in> set cs. \<not> is_object c) \<longrightarrow>
      cleanSchema (JObj [(''anyOf'', JArr (map (\<lambda>c. JObj [(''const'', c)]) cs))]) =
        Inr (JObj [(''type'', JStr ''STRING''), (''enum'', JArr (map (\<lambda>c. JStr (text_of c)) cs))]))"
proof
  show "cleanSchema (JObj [(''anyOf'', JArr [JObj [(''const'', JStr ''a'')], JObj [(''const'', JStr ''b'')]])]) =
     Inr (JObj [(''type'', JStr ''STRING''), (''enum'', JArr [JStr ''a'', JStr ''b''])])"
    by code_simp
next
  show "cs \<noteq> [] \<and> (\<forall>c \<in> set cs. \<not> is_object c) \<longrightarrow>
      cleanSchema (JObj [(''anyOf'', JArr (map (\<lambda>c. JObj [(''const'', c)]) cs))]) =
        Inr (JObj [(''type'', JStr ''STRING''), (''enum'', JArr (map (\<lambda>c. JStr (text_of c)) cs))])"
  proof
    assume a: "cs \<noteq> [] \<and> (\<forall>c \<in> set cs. \<not> is_object c)"
    then have ne: "cs \<noteq> []" and pr: "\<forall>c \<in> set cs. \<not> is_object c" by simp_all
    have u: "JObj [(''anyOf'', JArr (map (\<lambda>c. JObj [(''const'', c)]) cs))] = const_union const_option cs"
      by (simp add: const_union_def const_option_def)
    have prim: "\<forall>x \<in> set (map (\<lambda>c. JStr (text_of c)) cs). \<not> is_object x" by simp
    have obj: "is_object (const_union const_option cs)" by (simp add: const_union_def)
    show "cleanSchema (JObj [(''anyOf'', JArr (map (\<lambda>c. JObj [(''const'', c)]) cs))]) =
        Inr (JObj [(''type'', JStr ''STRING''), (''enum'', JArr (map (\<lambda>c. JStr (text_of c)) cs))])"
      unfolding u cleanSchema_def
      using obj union_phase1[OF pr] mergeAllOf_hinted_union[OF ne] flatten_hinted_union[OF ne]
        enum_schema_phases[OF prim]
      by (simp add: bindE_def)
  qed
qed

theorem cleanSchema_const_union_witness:
  "[JStr ''a'', JNum ''1'', JBool True] \<noteq> [] \<and>
   \<not> is_object (JStr ''a'') \<and> \<not> is_object (JNum ''1'') \<and> \<not> is_object (JBool True) \<and>
   cleanSchema (JObj [(''anyOf'', JArr [JObj [(''const'', JStr ''a'')], JObj [(''const'', JNum ''1'')],
                                       JObj [(''const'', JBool True)]])]) =
     Inr (JObj [(''type'', JStr ''STRING''), (''enum'', JArr [JStr ''a'', JStr ''1'', JStr ''true''])])"
  using cleanSchema_const_union[of "[JStr ''a'', JNum ''1'', JBool True]"] by simp

subsection \<open>Walks\<close>


lemma mapE_Inr: "mapE f xs = Inr ys \<Longrightarrow> list_all2 (\<lambda>x y. f x = Inr y) xs ys"
  by (induction xs arbitrary: ys) (auto split: sum.splits)

lemma walk_array_Inr:
  "walk_array rec xs = Inr r \<Longrightarrow> \<exists>ys. r = JArr ys \<and> list_all2 (\<lambda>x y. rec x = Inr y) xs ys"
  by (auto simp: walk_array_def split: sum.splits dest: mapE_Inr)

lemma child_rel_simp:
  "child_rel rec (k, v) (k', v') = (k' = k \<and> (if is_object v then rec v = Inr v' else v' = v))"
  by (auto simp: child_rel_def)

lemma walk_values_Inr:
  assumes "walk_values rec kvs = Inr r"
  shows "\<exists>es. r = JObj es \<and> list_all2 (child_rel rec) kvs es"
proof -
  let ?f = "\<lambda>(k, v). if is_object v
                            then (case rec v of Inl e \<Rightarrow> Inl e | Inr v' \<Rightarrow> Inr (k, v'))
                            else Inr (k, v)"
  from assms obtain es where es: "mapE ?f kvs = Inr es" "r = JObj es"
    by (auto simp: walk_values_def split: sum.splits)
  from mapE_Inr[OF es(1)] have "list_all2 (\<lambda>x y. ?f x = Inr y) kvs es" .
  then have "list_all2 (child_rel rec) kvs es"
    by (rule list_all2_mono) (auto simp: child_rel_simp split: if_splits sum.splits)
  with es(2) show ?thesis by blast
qed




lemma walk_values_fixed:
  "(\<forall>(k, v) \<in> set kvs. is_object v \<longrightarrow> rec v = Inr v) \<Longrightarrow> walk_values rec kvs = Inr (JObj kvs)"
proof -
  assume a: "\<forall>(k, v) \<in> set kvs. is_object v \<longrightarrow> rec v = Inr v"
  have "mapE (\<lambda>(k, v). if is_object v
                            then (case rec v of Inl e \<Rightarrow> Inl e | Inr v' \<Rightarrow> Inr (k, v'))
                            else Inr (k, v)) kvs = Inr kvs"
    by (rule mapE_prims) (use a in auto)
  then show ?thesis by (simp add: walk_values_def)
qed

lemma walk_fixed:
  assumes w: "is_walk P N m"
  shows "all_nodes (\<lambda>kvs. N kvs = Inr (JObj kvs)) t \<Longrightarrow> P t = Inr t"
proof (induction t rule: measure_induct_rule[where f = size])
  case (less t)
  show ?case
  proof (cases t)
    case (JArr xs)
    have "\<forall>x \<in> set xs. P x = Inr x"
    proof
      fix x assume x: "x \<in> set xs"
      with less.prems JArr have "all_nodes (\<lambda>kvs. N kvs = Inr (JObj kvs)) x" by simp
      with less.IH[of x] size_elem[OF x] JArr show "P x = Inr x" by simp
    qed
    from mapE_prims[OF this] w JArr show ?thesis by (simp add: is_walk_def walk_array_def)
  next
    case (JObj kvs)
    with less.prems have n: "N kvs = Inr (JObj kvs)"
      and c: "\<forall>(k, v) \<in> set kvs. all_nodes (\<lambda>kvs. N kvs = Inr (JObj kvs)) v" by simp_all
    have "\<forall>(k, v) \<in> set kvs. is_object v \<longrightarrow> P v = Inr v"
    proof (intro ballI, clarify)
      fix k v assume kv: "(k, v) \<in> set kvs"
      with c have "all_nodes (\<lambda>kvs. N kvs = Inr (JObj kvs)) v" by auto
      with less.IH[of v] size_member[OF kv] JObj show "P v = Inr v" by simp
    qed
    from walk_values_fixed[OF this] w n JObj show ?thesis by (simp add: is_walk_def)
  qed (use w in \<open>simp_all add: is_walk_def\<close>)
qed

text \<open>kind preservation\<close>

lemma walk_kind:
  assumes w: "is_walk P N m" and n: "\<And>kvs r. N kvs = Inr r \<Longrightarrow> \<exists>es. r = JObj es"
  shows "P v = Inr v' \<Longrightarrow>
         text_of v' = text_of v \<and> (v' = JNull \<longleftrightarrow> v = JNull) \<and>
         (\<forall>xs. v = JArr xs \<longrightarrow> (\<exists>ys. v' = JArr ys \<and> list_all2 (\<lambda>x y. P x = Inr y) xs ys)) \<and>
         (\<forall>kvs. v = JObj kvs \<longrightarrow> (\<exists>es es'. N kvs = Inr (JObj es) \<and> v' = JObj es' \<and>
              list_all2 (child_rel P) es es')) \<and>
         (\<not> is_object v \<longrightarrow> v' = v)"
proof (induction v arbitrary: v' rule: measure_induct_rule[where f = size])
  case (less v)
  show ?case
  proof (cases v)
    case (JArr xs)
    with less.prems w have "walk_array P xs = Inr v'" by (simp add: is_walk_def)
    from walk_array_Inr[OF this] obtain ys where ys: "v' = JArr ys"
      "list_all2 (\<lambda>x y. P x = Inr y) xs ys" by blast
    have "list_all2 (\<lambda>x y. text_of y = text_of x \<and> (y = JNull \<longleftrightarrow> x = JNull)) xs ys"
    proof (rule list.rel_mono_strong[OF ys(2)])
      show "\<And>x y. x \<in> set xs \<Longrightarrow> y \<in> set ys \<Longrightarrow> P x = Inr y
           \<Longrightarrow> text_of y = text_of x \<and> (y = JNull \<longleftrightarrow> x = JNull)"
        using less.IH size_elem JArr by simp
    qed
    then have "map (\<lambda>x. if x = JNull then [] else text_of x) ys =
               map (\<lambda>x. if x = JNull then [] else text_of x) xs"
      by (induction rule: list_all2_induct) auto
    with ys JArr show ?thesis by simp
  next
    case (JObj kvs)
    with less.prems w have eq: "(case N kvs of Inl e \<Rightarrow> Inl e
        | Inr result \<Rightarrow> walk_values P (own_entries result)) = Inr v'"
      by (simp add: is_walk_def)
    then obtain r where r: "N kvs = Inr r" "walk_values P (own_entries r) = Inr v'"
      by (cases "N kvs") auto
    from n[OF r(1)] obtain es where es: "r = JObj es" by blast
    from walk_values_Inr[OF r(2)] es obtain es' where "v' = JObj es'"
      "list_all2 (child_rel P) es es'" by auto
    with r(1) es JObj show ?thesis by auto
  qed (use less.prems w in \<open>auto simp: is_walk_def\<close>)
qed


lemma walk_kind_obj:
  assumes w: "is_walk P N m" and n: "\<forall>kvs r. N kvs = Inr r \<longrightarrow> (\<exists>es. r = JObj es)"
    and a: "P v = Inr v'"
  shows "text_of v' = text_of v \<and> (v' = JNull \<longleftrightarrow> v = JNull) \<and>
         (\<forall>xs. v = JArr xs \<longrightarrow> (\<exists>ys. v' = JArr ys \<and> list_all2 (\<lambda>x y. P x = Inr y) xs ys)) \<and>
         (\<forall>kvs. v = JObj kvs \<longrightarrow> (\<exists>es es'. N kvs = Inr (JObj es) \<and> v' = JObj es' \<and>
              list_all2 (child_rel P) es es')) \<and>
         (\<not> is_object v \<longrightarrow> v' = v)"
  by (rule walk_kind[OF w _ a]) (use n in blast)



lemma walk_prim:
  assumes w: "is_walk P N m" and n: "\<forall>kvs r. N kvs = Inr r \<longrightarrow> (\<exists>es. r = JObj es)"
    and a: "P v = Inr v'" and p: "\<not> is_object v'"
  shows "v' = v"
  using walk_kind_obj[OF w n a] p by (cases v) auto


lemma has_own_length: "length xs = length ys \<Longrightarrow> has_own (JArr ys) k = has_own (JArr xs) k"
  by simp









subsection \<open>The required fields of a cleaned schema\<close>







































subsection \<open>The request transformer\<close>

lemma extends_refl: "extends cs cs"
  by (simp add: extends_def)

lemma extends_trans: "extends as bs \<Longrightarrow> extends bs cs \<Longrightarrow> extends as cs"
  unfolding extends_def
  by (metis (no_types, lifting) append.assoc le_trans less_le_trans)

lemma push_content_merge:
  "cs \<noteq> [] \<Longrightarrow> c_role (last cs) = c_role c \<Longrightarrow>
   push_content cs c = butlast cs @ [(last cs)\<lparr>c_parts := c_parts (last cs) @ c_parts c\<rparr>]"
  by (simp add: push_content_def)

lemma push_content_append:
  "cs = [] \<or> c_role (last cs) \<noteq> c_role c \<Longrightarrow> push_content cs c = cs @ [c]"
  by (auto simp: push_content_def)

lemma extends_push: "extends cs (push_content cs c)"
proof (cases "cs \<noteq> [] \<and> c_role (last cs) = c_role c")
  case False
  then have "push_content cs c = cs @ [c]" by (auto simp: push_content_def)
  then show ?thesis by (simp add: extends_def nth_append)
next
  case True
  then have p: "push_content cs c = butlast cs @ [(last cs)\<lparr>c_parts := c_parts (last cs) @ c_parts c\<rparr>]"
    by (simp add: push_content_def)
  from True have len: "length (butlast cs) = length cs - 1" by simp
  show ?thesis
    unfolding extends_def p
  proof (intro conjI allI impI)
    show "length cs \<le> length (butlast cs @ [(last cs)\<lparr>c_parts := c_parts (last cs) @ c_parts c\<rparr>])"
      using True by simp
  next
    fix i assume i: "i < length cs"
    show "c_role ((butlast cs @ [(last cs)\<lparr>c_parts := c_parts (last cs) @ c_parts c\<rparr>]) ! i) = c_role (cs ! i)"
    proof (cases "i < length cs - 1")
      case True
      then show ?thesis by (simp add: nth_append nth_butlast)
    next
      case False
      with i have "i = length cs - 1" by simp
      with True show ?thesis by (simp add: nth_append last_conv_nth)
    qed
    show "\<exists>ys. c_parts ((butlast cs @ [(last cs)\<lparr>c_parts := c_parts (last cs) @ c_parts c\<rparr>]) ! i) =
               c_parts (cs ! i) @ ys"
    proof (cases "i < length cs - 1")
      case True
      then show ?thesis by (simp add: nth_append nth_butlast)
    next
      case False
      with i have "i = length cs - 1" by simp
      with True show ?thesis by (simp add: nth_append last_conv_nth)
    qed
  qed
qed

lemma extends_transformMessages: "extends cs (transformMessages h msgs cs)"
proof (induction msgs arbitrary: cs)
  case Nil
  show ?case by (simp add: extends_refl)
next
  case (Cons m msgs)
  show ?case
  proof (cases "msg_role m = ''system'' \<or> transformMessage h m = None")
    case True
    then show ?thesis using Cons.IH[of cs] by auto
  next
    case False
    then obtain c where "transformMessage h m = Some c" by auto
    with False have "transformMessages h (m # msgs) cs = transformMessages h msgs (push_content cs c)"
      by simp
    with extends_trans[OF extends_push Cons.IH] show ?thesis by simp
  qed
qed

lemma transformMessages_append:
  "transformMessages h (xs @ ys) cs = transformMessages h ys (transformMessages h xs cs)"
  by (induction xs arbitrary: cs) (auto split: option.splits)

lemma push_content_last:
  "push_content cs c \<noteq> [] \<and> c_role (last (push_content cs c)) = c_role c \<and>
   (\<exists>xs. c_parts (last (push_content cs c)) = xs @ c_parts c)"
  by (auto simp: push_content_def)

lemma extends_last:
  assumes "extends cs ds" "cs \<noteq> []"
  shows "\<exists>node \<in> set ds. c_role node = c_role (last cs) \<and> (\<exists>ys. c_parts node = c_parts (last cs) @ ys)"
proof -
  let ?i = "length cs - 1"
  from assms(2) have i1: "?i < length cs" by simp
  moreover from assms(1) have "length cs \<le> length ds" by (simp add: extends_def)
  ultimately have i: "?i < length cs" "?i < length ds" by simp_all
  from assms i have "c_role (ds ! ?i) = c_role (cs ! ?i) \<and> (\<exists>ys. c_parts (ds ! ?i) = c_parts (cs ! ?i) @ ys)"
    by (simp add: extends_def)
  with assms(2) have "c_role (ds ! ?i) = c_role (last cs) \<and> (\<exists>ys. c_parts (ds ! ?i) = c_parts (last cs) @ ys)"
    by (simp add: last_conv_nth)
  with i(2) show ?thesis by (metis nth_mem)
qed

text \<open>A message that renders leaves its parts, in order, in one node of the result.\<close>

lemma rendered_message_node:
  assumes "msg_role m \<noteq> ''system''" "transformMessage h m = Some c"
  shows "\<exists>node \<in> set (transformMessages h (pre @ m # post) cs).
           c_role node = c_role c \<and> (\<exists>xs ys. c_parts node = xs @ c_parts c @ ys)"
proof -
  define acc where "acc = transformMessages h pre cs"
  from assms have "transformMessages h (pre @ m # post) cs = transformMessages h post (push_content acc c)"
    by (simp add: transformMessages_append acc_def)
  moreover from push_content_last[of acc c] obtain xs where
    "push_content acc c \<noteq> []" "c_role (last (push_content acc c)) = c_role c"
    "c_parts (last (push_content acc c)) = xs @ c_parts c" by blast
  moreover note extends_last[OF extends_transformMessages[of "push_content acc c" h post]]
  ultimately show ?thesis by (metis append.assoc)
qed




lemma transformRequest_contents:
  "transformRequest h req = Inr out \<Longrightarrow> contents out = transformMessages h (req_messages req) []"
  by (auto simp: transformRequest_def split: sum.splits)







text \<open>
  C9: a tool message with a non-empty tool-call id whose string content does not parse
  as JSON becomes a user node that holds a function response with the response
  \<open>{content: <the string>}\<close> and with the message's name, or the placeholder
  \<open>unknown_tool\<close> when the message has no (or an empty) name; the node is in the
  contents of the transformed request.  The parse failure raises nothing: when
  \<open>transformRequest\<close> raises, the exception comes from the tools.
\<close>

theorem tool_result_unparseable:
  assumes "msg \<in> set (req_messages req)"
    and "msg_role msg = ''tool''"
    and "msg_tool_call_id msg = Some tid" and "tid \<noteq> []"
    and "msg_content msg = ContentString s"
    and "JSON_parse h s = None"
  shows "transformMessage h msg =
           Some \<lparr>c_role = ''user'',
                 c_parts = (if s \<noteq> [] then [TextPart s] else []) @
                   [FunctionResponsePart
                      (case msg_name msg of None \<Rightarrow> ''unknown_tool''
                       | Some n \<Rightarrow> if n \<noteq> [] then n else ''unknown_tool'')
                      (Wrapped (ContentString s))]\<rparr> \<and>
         (case transformRequest h req of
            Inr out \<Rightarrow>
              \<exists>node \<in> set (contents out). c_role node = ''user'' \<and>
                FunctionResponsePart
                  (case msg_name msg of None \<Rightarrow> ''unknown_tool''
                   | Some n \<Rightarrow> if n \<noteq> [] then n else ''unknown_tool'')
                  (Wrapped (ContentString s)) \<in> set (c_parts node)
          | Inl e \<Rightarrow> \<exists>ts. req_tools req = Some ts \<and> transformTools ts = Inl e)"
proof
  let ?resp = "FunctionResponsePart
                      (case msg_name msg of None \<Rightarrow> ''unknown_tool''
                       | Some n \<Rightarrow> if n \<noteq> [] then n else ''unknown_tool'')
                      (Wrapped (ContentString s))"
  let ?c = "\<lparr>c_role = ''user'', c_parts = (if s \<noteq> [] then [TextPart s] else []) @ [?resp]\<rparr>"
  from assms(2-6) show t: "transformMessage h msg = Some ?c"
    by (simp add: transformMessage_def call_parts_def content_parts_def tool_response_def)
  show "case transformRequest h req of
            Inr out \<Rightarrow> \<exists>node \<in> set (contents out). c_role node = ''user'' \<and> ?resp \<in> set (c_parts node)
          | Inl e \<Rightarrow> \<exists>ts. req_tools req = Some ts \<and> transformTools ts = Inl e"
  proof (cases "transformRequest h req")
    case (Inl e)
    then have "\<exists>ts. req_tools req = Some ts \<and> transformTools ts = Inl e"
      by (auto simp: transformRequest_def split: option.splits if_splits sum.splits)
    with Inl show ?thesis by simp
  next
    case (Inr out)
    from assms(1) obtain pre post where sp: "req_messages req = pre @ msg # post"
      by (auto dest: split_list)
    from assms(2) have ns: "msg_role msg \<noteq> ''system''" by simp
    from rendered_message_node[OF ns t, of pre post "[]"] sp transformRequest_contents[OF Inr]
    obtain node xs ys where "node \<in> set (contents out)" "c_role node = ''user''"
      "c_parts node = xs @ ((if s \<noteq> [] then [TextPart s] else []) @ [?resp]) @ ys"
      by auto
    then have "\<exists>node \<in> set (contents out). c_role node = ''user'' \<and> ?resp \<in> set (c_parts node)"
      by auto
    with Inr show ?thesis by simp
  qed
qed

theorem tool_result_unparseable_witness:
  "JSON_parse example_host ''not json'' = None \<and>
   transformRequest example_host
     (example_request ''gpt'' [user_message ''run it'', tool_message ''call_1'' ''not json'' None]) =
   Inr \<lparr>contents = [\<lparr>c_role = ''user'',
           c_parts = [TextPart ''run it'', TextPart ''not json'',
             FunctionResponsePart ''unknown_tool'' (Wrapped (ContentString ''not json''))]\<rparr>],
        systemInstruction = None, tools = None, toolConfig = None,
        generationConfig = \<lparr>temperature = None, maxOutputTokens = None, topP = None,
          stopSequences = None, candidateCount = 1, thinkingConfig = None\<rparr>\<rparr> \<and>
   transformMessage example_host (tool_message ''call_1'' ''not json'' None) =
     Some \<lparr>c_role = ''user'',
            c_parts = [TextPart ''not json'',
              FunctionResponsePart ''unknown_tool'' (Wrapped (ContentString ''not json''))]\<rparr>"
proof -
  let ?m = "tool_message ''call_1'' ''not json'' None"
  let ?req = "example_request ''gpt'' [user_message ''run it'', ?m]"
  have p: "JSON_parse example_host ''not json'' = None"
    by (simp add: example_host_def)
  have e: "transformRequest example_host ?req =
   Inr \<lparr>contents = [\<lparr>c_role = ''user'',
           c_parts = [TextPart ''run it'', TextPart ''not json'',
             FunctionResponsePart ''unknown_tool'' (Wrapped (ContentString ''not json''))]\<rparr>],
        systemInstruction = None, tools = None, toolConfig = None,
        generationConfig = \<lparr>temperature = None, maxOutputTokens = None, topP = None,
          stopSequences = None, candidateCount = 1, thinkingConfig = None\<rparr>\<rparr>"
    by code_simp
  have "?m \<in> set (req_messages ?req)" by (simp add: example_request_def)
  moreover have "msg_role ?m = ''tool''" "msg_tool_call_id ?m = Some ''call_1''" "''call_1'' \<noteq> []"
    "msg_content ?m = ContentString ''not json''" "msg_name ?m = None"
    by (simp_all add: tool_message_def)
  ultimately have "transformMessage example_host ?m =
     Some \<lparr>c_role = ''user'',
            c_parts = [TextPart ''not json'',
              FunctionResponsePart ''unknown_tool'' (Wrapped (ContentString ''not json''))]\<rparr>"
    using tool_result_unparseable[of ?m ?req "''call_1''" "''not json''" example_host] p
    by simp
  with p e show ?thesis by blast
qed

lemma mapE_no_functions:
  "\<forall>t \<in> set ts. tool_type t \<noteq> ''function'' \<Longrightarrow> mapE transformTool ts = Inr (map (\<lambda>t. None) ts)"
  by (induction ts) (simp_all add: transformTool_def)

lemma transformTools_no_functions:
  "\<forall>t \<in> set ts. tool_type t \<noteq> ''function'' \<Longrightarrow> transformTools ts = Inr []"
proof -
  assume "\<forall>t \<in> set ts. tool_type t \<noteq> ''function''"
  then have "mapE transformTool ts = Inr (map (\<lambda>t. None) ts)" by (rule mapE_no_functions)
  moreover have "concat (map (\<lambda>d. case d of None \<Rightarrow> [] | Some x \<Rightarrow> [x]) (map (\<lambda>t. None) ts))
      = ([] :: FunctionDeclaration list)"
    by (induction ts) simp_all
  ultimately show ?thesis by (simp add: transformTools_def)
qed

text \<open>
  C6 (as amended): for a request whose tools array is non-empty and has no entry of
  type "function", \<open>transformRequest\<close> sets the tools field of the internal request to
  the empty array.  The field is omitted when the request has no tools array or an
  empty one.
\<close>

theorem tools_without_functions:
  "(req_tools req = Some ts \<and> ts \<noteq> [] \<and> (\<forall>t \<in> set ts. tool_type t \<noteq> ''function'') \<longrightarrow>
      (\<exists>out. transformRequest h req = Inr out \<and> tools out = Some [])) \<and>
   (req_tools req = None \<or> req_tools req = Some [] \<longrightarrow>
      (\<exists>out. transformRequest h req = Inr out \<and> tools out = None))"
  by (auto simp: transformRequest_def transformTools_no_functions)

lemma example_retrieval_request:
  "transformRequest example_host
     ((example_request ''gpt'' [user_message ''hi''])\<lparr>req_tools := Some [retrieval_tool]\<rparr>) =
   Inr \<lparr>contents = [\<lparr>c_role = ''user'', c_parts = [TextPart ''hi'']\<rparr>],
        systemInstruction = None, tools = Some [], toolConfig = None,
        generationConfig = \<lparr>temperature = None, maxOutputTokens = None, topP = None,
          stopSequences = None, candidateCount = 1, thinkingConfig = None\<rparr>\<rparr>"
  by code_simp

theorem tools_without_functions_witness:
  "req_tools ((example_request ''gpt'' [user_message ''hi''])\<lparr>req_tools := Some [retrieval_tool]\<rparr>)
     = Some [retrieval_tool] \<and>
   tool_type retrieval_tool \<noteq> ''function'' \<and>
   (\<exists>out. transformRequest example_host
       ((example_request ''gpt'' [user_message ''hi''])\<lparr>req_tools := Some [retrieval_tool]\<rparr>) = Inr out \<and>
      tools out = Some []) \<and>
   req_tools (example_request ''gpt'' [user_message ''hi'']) = None \<and>
   (\<exists>out. transformRequest example_host (example_request ''gpt'' [user_message ''hi'']) = Inr out \<and>
      tools out = None)"
proof -
  let ?r = "(example_request ''gpt'' [user_message ''hi''])\<lparr>req_tools := Some [retrieval_tool]\<rparr>"
  have a: "req_tools ?r = Some [retrieval_tool]" by simp
  have b: "tool_type retrieval_tool \<noteq> ''function''" by (simp add: retrieval_tool_def)
  have c: "req_tools (example_request ''gpt'' [user_message ''hi'']) = None"
    by (simp add: example_request_def)
  from tools_without_functions[of ?r "[retrieval_tool]" example_host] a b
  have d: "\<exists>out. transformRequest example_host ?r = Inr out \<and> tools out = Some []" by simp
  from tools_without_functions[of "example_request ''gpt'' [user_message ''hi'']" "[]" example_host] c
  have e: "\<exists>out. transformRequest example_host (example_request ''gpt'' [user_message ''hi'']) = Inr out \<and>
      tools out = None" by simp
  from a b c d e show ?thesis by blast
qed

text \<open>
  C6 as stated fails: the tools field is present, and it is the empty array.
\<close>

theorem tools_omitted_counterexample:
  "transformRequest example_host
     ((example_request ''gpt'' [user_message ''hi''])\<lparr>req_tools := Some [retrieval_tool]\<rparr>) =
   Inr \<lparr>contents = [\<lparr>c_role = ''user'', c_parts = [TextPart ''hi'']\<rparr>],
        systemInstruction = None, tools = Some [], toolConfig = None,
        generationConfig = \<lparr>temperature = None, maxOutputTokens = None, topP = None,
          stopSequences = None, candidateCount = 1, thinkingConfig = None\<rparr>\<rparr>"
  by (rule example_retrieval_request)

lemma transformRequest_generationConfig:
  "transformRequest h req = Inr out \<Longrightarrow>
   generationConfig out = enableThinking (req_model req) (baseGenerationConfig req)"
  by (auto simp: transformRequest_def split: sum.splits)

text \<open>
  C2 (as amended): a request whose model identifier contains \<open>gemini-3\<close> (in any
  letter case), such as \<open>gemini-3-pro\<close> and \<open>gemini-3-pro-thinking\<close>, gets a
  thinkingConfig with thinkingLevel "medium", and maxOutputTokens 65535 when the
  request gave no output-token cap.  A request whose model identifier contains none of
  \<open>thinking\<close>, \<open>gemini-3\<close> and \<open>opus\<close> gets no thinkingConfig, and its
  maxOutputTokens is the cap of the request.  A request without tools is always
  transformed (nothing raises).
\<close>

theorem thinking_config:
  "(req_tools req = None \<longrightarrow> (\<exists>out. transformRequest h req = Inr out)) \<and>
   (\<forall>out. transformRequest h req = Inr out \<longrightarrow>
        (includes_str (toLowerCase (req_model req)) ''gemini-3'' \<longrightarrow>
            thinkingConfig (generationConfig out) =
              Some \<lparr>includeThoughts = True, thinkingLevel = Some ''medium'', thinkingBudget = None\<rparr> \<and>
            (req_max_tokens req = None \<longrightarrow> maxOutputTokens (generationConfig out) = Some 65535)) \<and>
         (req_model req = ''gemini-3-pro'' \<or> req_model req = ''gemini-3-pro-thinking'' \<longrightarrow>
            thinkingConfig (generationConfig out) =
              Some \<lparr>includeThoughts = True, thinkingLevel = Some ''medium'', thinkingBudget = None\<rparr> \<and>
            (req_max_tokens req = None \<longrightarrow> maxOutputTokens (generationConfig out) = Some 65535)) \<and>
         (\<not> includes_str (toLowerCase (req_model req)) ''thinking'' \<and>
          \<not> includes_str (toLowerCase (req_model req)) ''gemini-3'' \<and>
          \<not> includes_str (toLowerCase (req_model req)) ''opus'' \<longrightarrow>
            thinkingConfig (generationConfig out) = None \<and>
            maxOutputTokens (generationConfig out) = req_max_tokens req))"
proof (rule conjI; (rule allI)?; rule impI)
  assume "req_tools req = None"
  then show "\<exists>out. transformRequest h req = Inr out" by (simp add: transformRequest_def)
next
  fix out assume ret: "transformRequest h req = Inr out"
  note g = transformRequest_generationConfig[OF ret]
  have general: "thinkingConfig (generationConfig out) =
              Some \<lparr>includeThoughts = True, thinkingLevel = Some ''medium'', thinkingBudget = None\<rparr> \<and>
            (req_max_tokens req = None \<longrightarrow> maxOutputTokens (generationConfig out) = Some 65535)"
    if "includes_str (toLowerCase (req_model req)) ''gemini-3''"
    using that unfolding g
    by (simp add: enableThinking_def baseGenerationConfig_def Let_def split: option.splits)
  have names: "includes_str (toLowerCase ''gemini-3-pro'') ''gemini-3''"
    "includes_str (toLowerCase ''gemini-3-pro-thinking'') ''gemini-3''"
    by code_simp+
  have none: "thinkingConfig (generationConfig out) = None \<and>
            maxOutputTokens (generationConfig out) = req_max_tokens req"
    if "\<not> includes_str (toLowerCase (req_model req)) ''thinking'' \<and>
          \<not> includes_str (toLowerCase (req_model req)) ''gemini-3'' \<and>
          \<not> includes_str (toLowerCase (req_model req)) ''opus''"
    using that unfolding g
    by (simp add: enableThinking_def baseGenerationConfig_def Let_def)
  from general names none
  show "(includes_str (toLowerCase (req_model req)) ''gemini-3'' \<longrightarrow>
            thinkingConfig (generationConfig out) =
              Some \<lparr>includeThoughts = True, thinkingLevel = Some ''medium'', thinkingBudget = None\<rparr> \<and>
            (req_max_tokens req = None \<longrightarrow> maxOutputTokens (generationConfig out) = Some 65535)) \<and>
         (req_model req = ''gemini-3-pro'' \<or> req_model req = ''gemini-3-pro-thinking'' \<longrightarrow>
            thinkingConfig (generationConfig out) =
              Some \<lparr>includeThoughts = True, thinkingLevel = Some ''medium'', thinkingBudget = None\<rparr> \<and>
            (req_max_tokens req = None \<longrightarrow> maxOutputTokens (generationConfig out) = Some 65535)) \<and>
         (\<not> includes_str (toLowerCase (req_model req)) ''thinking'' \<and>
          \<not> includes_str (toLowerCase (req_model req)) ''gemini-3'' \<and>
          \<not> includes_str (toLowerCase (req_model req)) ''opus'' \<longrightarrow>
            thinkingConfig (generationConfig out) = None \<and>
            maxOutputTokens (generationConfig out) = req_max_tokens req)"
    by metis
qed

lemma example_gemini3:
  "transformRequest example_host (example_request ''gemini-3-pro'' [user_message ''hi'']) =
   Inr \<lparr>contents = [\<lparr>c_role = ''user'', c_parts = [TextPart ''hi'']\<rparr>],
        systemInstruction = None, tools = None, toolConfig = None,
        generationConfig = \<lparr>temperature = None, maxOutputTokens = Some 65535, topP = None,
          stopSequences = None, candidateCount = 1,
          thinkingConfig = Some \<lparr>includeThoughts = True, thinkingLevel = Some ''medium'',
            thinkingBudget = None\<rparr>\<rparr>\<rparr>"
  by code_simp

theorem thinking_config_witness:
  "transformRequest example_host (example_request ''gemini-3-pro-thinking'' [user_message ''hi'']) =
   Inr \<lparr>contents = [\<lparr>c_role = ''user'', c_parts = [TextPart ''hi'']\<rparr>],
        systemInstruction = None, tools = None, toolConfig = None,
        generationConfig = \<lparr>temperature = None, maxOutputTokens = Some 65535, topP = None,
          stopSequences = None, candidateCount = 1,
          thinkingConfig = Some \<lparr>includeThoughts = True, thinkingLevel = Some ''medium'',
            thinkingBudget = None\<rparr>\<rparr>\<rparr> \<and>
   transformRequest example_host (example_request ''gemini-2.0-flash'' [user_message ''hi'']) =
   Inr \<lparr>contents = [\<lparr>c_role = ''user'', c_parts = [TextPart ''hi'']\<rparr>],
        systemInstruction = None, tools = None, toolConfig = None,
        generationConfig = \<lparr>temperature = None, maxOutputTokens = None, topP = None,
          stopSequences = None, candidateCount = 1, thinkingConfig = None\<rparr>\<rparr> \<and>
   \<not> includes_str (toLowerCase ''gemini-2.0-flash'') ''thinking'' \<and>
   \<not> includes_str (toLowerCase ''gemini-2.0-flash'') ''gemini-3'' \<and>
   \<not> includes_str (toLowerCase ''gemini-2.0-flash'') ''opus''"
proof -
  let ?r1 = "example_request ''gemini-3-pro-thinking'' [user_message ''hi'']"
  let ?r2 = "example_request ''gemini-2.0-flash'' [user_message ''hi'']"
  obtain o1 where o1: "transformRequest example_host ?r1 = Inr o1"
    and s1: "contents o1 = [\<lparr>c_role = ''user'', c_parts = [TextPart ''hi'']\<rparr>]"
      "systemInstruction o1 = None" "tools o1 = None" "toolConfig o1 = None"
      "temperature (generationConfig o1) = None" "topP (generationConfig o1) = None"
      "stopSequences (generationConfig o1) = None" "candidateCount (generationConfig o1) = 1"
    by (simp add: transformRequest_def example_request_def user_message_def transformMessage_def
        content_parts_def call_parts_def push_content_def transformToolChoice_def
        enableThinking_def baseGenerationConfig_def Let_def)
  obtain o2 where o2: "transformRequest example_host ?r2 = Inr o2"
    and s2: "contents o2 = [\<lparr>c_role = ''user'', c_parts = [TextPart ''hi'']\<rparr>]"
      "systemInstruction o2 = None" "tools o2 = None" "toolConfig o2 = None"
      "temperature (generationConfig o2) = None" "topP (generationConfig o2) = None"
      "stopSequences (generationConfig o2) = None" "candidateCount (generationConfig o2) = 1"
    by (simp add: transformRequest_def example_request_def user_message_def transformMessage_def
        content_parts_def call_parts_def push_content_def transformToolChoice_def
        enableThinking_def baseGenerationConfig_def Let_def)
  have m1: "req_model ?r1 = ''gemini-3-pro-thinking''" "req_max_tokens ?r1 = None"
    and m2: "req_model ?r2 = ''gemini-2.0-flash''" "req_max_tokens ?r2 = None"
    by (simp_all add: example_request_def)
  have n: "\<not> includes_str (toLowerCase ''gemini-2.0-flash'') ''thinking''"
    "\<not> includes_str (toLowerCase ''gemini-2.0-flash'') ''gemini-3''"
    "\<not> includes_str (toLowerCase ''gemini-2.0-flash'') ''opus''"
    by code_simp+
  from thinking_config[of ?r1 example_host] o1 m1
  have t1: "thinkingConfig (generationConfig o1) =
      Some \<lparr>includeThoughts = True, thinkingLevel = Some ''medium'', thinkingBudget = None\<rparr>"
    "maxOutputTokens (generationConfig o1) = Some 65535"
    by simp_all
  from thinking_config[of ?r2 example_host] o2 m2 n
  have t2: "thinkingConfig (generationConfig o2) = None" "maxOutputTokens (generationConfig o2) = None"
    by simp_all
  have e1: "o1 = \<lparr>contents = [\<lparr>c_role = ''user'', c_parts = [TextPart ''hi'']\<rparr>],
        systemInstruction = None, tools = None, toolConfig = None,
        generationConfig = \<lparr>temperature = None, maxOutputTokens = Some 65535, topP = None,
          stopSequences = None, candidateCount = 1,
          thinkingConfig = Some \<lparr>includeThoughts = True, thinkingLevel = Some ''medium'',
            thinkingBudget = None\<rparr>\<rparr>\<rparr>"
    using s1 t1 by (cases o1, cases "generationConfig o1") simp
  have e2: "o2 = \<lparr>contents = [\<lparr>c_role = ''user'', c_parts = [TextPart ''hi'']\<rparr>],
        systemInstruction = None, tools = None, toolConfig = None,
        generationConfig = \<lparr>temperature = None, maxOutputTokens = None, topP = None,
          stopSequences = None, candidateCount = 1, thinkingConfig = None\<rparr>\<rparr>"
    using s2 t2 by (cases o2, cases "generationConfig o2") simp
  from o1 o2 e1 e2 n show ?thesis by simp
qed

text \<open>
  C2 as stated fails: the identifier \<open>gemini-3-pro\<close> contains the keyword
  \<open>gemini-3\<close>, so the request gets a thinkingConfig.
\<close>

theorem no_thinking_keyword_counterexample:
  "transformRequest example_host (example_request ''gemini-3-pro'' [user_message ''hi'']) =
   Inr \<lparr>contents = [\<lparr>c_role = ''user'', c_parts = [TextPart ''hi'']\<rparr>],
        systemInstruction = None, tools = None, toolConfig = None,
        generationConfig = \<lparr>temperature = None, maxOutputTokens = Some 65535, topP = None,
          stopSequences = None, candidateCount = 1,
          thinkingConfig = Some \<lparr>includeThoughts = True, thinkingLevel = Some ''medium'',
            thinkingBudget = None\<rparr>\<rparr>\<rparr>"
  by (rule example_gemini3)

subsection \<open>The depth of the argument is enough fuel\<close>

lemma foldr_max_ge: "x \<in> set xs \<Longrightarrow> (x::nat) \<le> foldr max xs 0"
  by (induction xs) auto

lemma foldr_max_le: "(\<forall>x \<in> set xs. x \<le> m) \<Longrightarrow> foldr max xs 0 \<le> (m::nat)"
  by (induction xs) auto

lemma depth_elem: "x \<in> set xs \<Longrightarrow> depth x < depth (JArr xs)"
  using foldr_max_ge[of "depth x" "map depth xs"] by (simp add: less_Suc_eq_le)

lemma depth_member: "(k, v) \<in> set kvs \<Longrightarrow> depth v < depth (JObj kvs)"
  using foldr_max_ge[of "depth v" "map (\<lambda>(k, v). depth v) kvs"] by (force simp: less_Suc_eq_le)

lemma depth_JArr_le: "(\<forall>x \<in> set xs. depth x \<le> m) \<Longrightarrow> depth (JArr xs) \<le> Suc m"
  using foldr_max_le[of "map depth xs" m] by simp

lemma depth_JObj_le: "(\<forall>(k, v) \<in> set kvs. depth v \<le> m) \<Longrightarrow> depth (JObj kvs) \<le> Suc m"
  using foldr_max_le[of "map (\<lambda>(k, v). depth v) kvs" m] by (auto simp: case_prod_unfold)

lemma depth_own_entries: "(k, v) \<in> set (own_entries x) \<Longrightarrow> depth v \<le> depth x - 1"
proof (cases x)
  case (JArr xs)
  assume "(k, v) \<in> set (own_entries x)"
  with JArr have "v \<in> set xs" by (auto dest: set_zip_rightD)
  from depth_elem[OF this] JArr show ?thesis by simp
next
  case (JObj kvs)
  assume "(k, v) \<in> set (own_entries x)"
  with JObj depth_member[of k v kvs] show ?thesis by simp
next
  case (JStr s)
  assume "(k, v) \<in> set (own_entries x)"
  with JStr show ?thesis by (auto dest!: set_zip_rightD)
qed simp_all

lemma set_spread: "set (spread a b) \<subseteq> set a \<union> set b"
proof (induction b arbitrary: a)
  case Nil
  show ?case by (simp add: spread_def)
next
  case (Cons kv b)
  have "spread a (kv # b) = spread (obj_set (fst kv) (snd kv) a) b" by (simp add: spread_def)
  with Cons[of "obj_set (fst kv) (snd kv) a"] set_obj_set[of "fst kv" "snd kv" a]
  show ?case by auto
qed

lemma set_dedupe: "set (dedupe seen xs) \<subseteq> set xs"
  by (induction xs arbitrary: seen) auto

lemma mapE_good:
  assumes "good rec d" "m \<le> d"
  shows "(\<forall>x \<in> set xs. depth x \<le> m) \<Longrightarrow>
         (\<exists>ys. mapE rec xs = Inr ys \<and> (\<forall>y \<in> set ys. depth y \<le> m)) \<or> mapE rec xs = Inl TypeError"
proof (induction xs)
  case Nil
  show ?case by simp
next
  case (Cons x xs)
  then have x: "depth x \<le> d" using assms(2) by simp
  from assms(1) x have "(\<exists>r. rec x = Inr r \<and> depth r \<le> depth x) \<or> rec x = Inl TypeError"
    by (simp add: good_def)
  then show ?case
  proof
    assume "rec x = Inl TypeError"
    then show ?thesis by simp
  next
    assume "\<exists>r. rec x = Inr r \<and> depth r \<le> depth x"
    then obtain r where r: "rec x = Inr r" "depth r \<le> depth x" by blast
    from Cons have "(\<exists>ys. mapE rec xs = Inr ys \<and> (\<forall>y \<in> set ys. depth y \<le> m)) \<or> mapE rec xs = Inl TypeError"
      by simp
    then show ?thesis
    proof
      assume "mapE rec xs = Inl TypeError"
      with r show ?thesis by simp
    next
      assume "\<exists>ys. mapE rec xs = Inr ys \<and> (\<forall>y \<in> set ys. depth y \<le> m)"
      then obtain ys where "mapE rec xs = Inr ys" "\<forall>y \<in> set ys. depth y \<le> m" by blast
      with r Cons.prems show ?thesis by auto
    qed
  qed
qed

lemma walk_array_good:
  assumes "good rec d" "depth (JArr xs) \<le> Suc d"
  shows "(\<exists>r. walk_array rec xs = Inr r \<and> depth r \<le> depth (JArr xs)) \<or> walk_array rec xs = Inl TypeError"
proof -
  define m where "m = depth (JArr xs) - 1"
  have m: "m \<le> d" "depth (JArr xs) = Suc m" using assms(2) by (simp_all add: m_def)
  have "\<forall>x \<in> set xs. depth x \<le> m"
  proof
    fix x assume "x \<in> set xs"
    from depth_elem[OF this] m(2) show "depth x \<le> m" by (simp del: depth.simps)
  qed
  from mapE_good[OF assms(1) m(1) this] show ?thesis
  proof
    assume "mapE rec xs = Inl TypeError"
    then show ?thesis by (simp add: walk_array_def)
  next
    assume "\<exists>ys. mapE rec xs = Inr ys \<and> (\<forall>y \<in> set ys. depth y \<le> m)"
    then obtain ys where ys: "mapE rec xs = Inr ys" "\<forall>y \<in> set ys. depth y \<le> m" by blast
    from depth_JArr_le[OF ys(2)] ys(1) m(2) show ?thesis
      by (simp add: walk_array_def del: depth.simps)
  qed
qed

lemma walk_values_good:
  assumes "good rec d" "m \<le> d"
  shows "(\<forall>(k, v) \<in> set kvs. depth v \<le> m) \<Longrightarrow>
         (\<exists>r. walk_values rec kvs = Inr r \<and> depth r \<le> Suc m) \<or> walk_values rec kvs = Inl TypeError"
proof -
  let ?f = "\<lambda>(k, v). if is_object v
                            then (case rec v of Inl e \<Rightarrow> Inl e | Inr v' \<Rightarrow> Inr (k, v'))
                            else Inr (k, v)"
  have step: "(\<forall>(k, v) \<in> set kvs. depth v \<le> m) \<Longrightarrow>
      (\<exists>es. mapE ?f kvs = Inr es \<and> (\<forall>(k, v) \<in> set es. depth v \<le> m)) \<or> mapE ?f kvs = Inl TypeError"
  proof (induction kvs)
    case Nil
    show ?case by simp
  next
    case (Cons kv kvs)
    obtain k v where kv: "kv = (k, v)" by (cases kv)
    with Cons.prems have v: "depth v \<le> m" by simp
    with assms have "(\<exists>r. rec v = Inr r \<and> depth r \<le> depth v) \<or> rec v = Inl TypeError"
      by (simp add: good_def)
    then have head: "(\<exists>v'. ?f kv = Inr (k, v') \<and> depth v' \<le> m) \<or> ?f kv = Inl TypeError"
      using v kv by auto
    from Cons have tail: "(\<exists>es. mapE ?f kvs = Inr es \<and> (\<forall>(k, v) \<in> set es. depth v \<le> m)) \<or>
        mapE ?f kvs = Inl TypeError" by simp
    from head show ?case
    proof
      assume "?f kv = Inl TypeError"
      then show ?thesis by simp
    next
      assume "\<exists>v'. ?f kv = Inr (k, v') \<and> depth v' \<le> m"
      then obtain v' where v': "?f kv = Inr (k, v')" "depth v' \<le> m" by blast
      from tail show ?thesis
      proof
        assume "mapE ?f kvs = Inl TypeError"
        with v' show ?thesis by simp
      next
        assume "\<exists>es. mapE ?f kvs = Inr es \<and> (\<forall>(k, v) \<in> set es. depth v \<le> m)"
        then obtain es where "mapE ?f kvs = Inr es" "\<forall>(k, v) \<in> set es. depth v \<le> m" by blast
        with v' show ?thesis by auto
      qed
    qed
  qed
  assume "\<forall>(k, v) \<in> set kvs. depth v \<le> m"
  from step[OF this] show ?thesis
  proof
    assume "mapE ?f kvs = Inl TypeError"
    then show ?thesis by (simp add: walk_values_def)
  next
    assume "\<exists>es. mapE ?f kvs = Inr es \<and> (\<forall>(k, v) \<in> set es. depth v \<le> m)"
    then obtain es where es: "mapE ?f kvs = Inr es" "\<forall>(k, v) \<in> set es. depth v \<le> m" by blast
    from depth_JObj_le[OF es(2)] es(1) show ?thesis
      by (simp add: walk_values_def del: depth.simps)
  qed
qed


lemma vals_le_mono: "vals_le kvs m \<Longrightarrow> m \<le> m' \<Longrightarrow> vals_le kvs m'"
  by (fastforce simp: vals_le_def)

lemma vals_le_obj_set: "vals_le kvs m \<Longrightarrow> depth v \<le> m \<Longrightarrow> vals_le (obj_set k v kvs) m"
  using set_obj_set[of k v kvs] by (auto simp: vals_le_def)

lemma vals_le_obj_del: "vals_le kvs m \<Longrightarrow> vals_le (obj_del k kvs) m"
  using set_obj_del[of k kvs] by (auto simp: vals_le_def)

lemma vals_le_spread: "vals_le a m \<Longrightarrow> vals_le b m \<Longrightarrow> vals_le (spread a b) m"
  using set_spread[of a b] by (auto simp: vals_le_def)

lemma vals_le_own_entries: "depth x \<le> Suc m \<Longrightarrow> vals_le (own_entries x) m"
  using depth_own_entries[of _ _ x] by (fastforce simp: vals_le_def)

lemma vals_le_object: "vals_le kvs (depth (JObj kvs) - 1)"
  unfolding vals_le_def
proof (intro ballI, clarify)
  fix k v assume "(k, v) \<in> set kvs"
  from depth_member[OF this] show "depth v \<le> depth (JObj kvs) - 1" by (simp del: depth.simps)
qed

lemma depth_vals_le: "vals_le kvs m \<Longrightarrow> depth (JObj kvs) \<le> Suc m"
  unfolding vals_le_def by (rule depth_JObj_le)

lemma vals_le_lookup: "vals_le kvs m \<Longrightarrow> map_of kvs k = Some v \<Longrightarrow> depth v \<le> m"
  by (auto simp: vals_le_def dest!: map_of_SomeD)

lemma depth_js_prop: "js_prop x k = Some v \<Longrightarrow> depth v < depth x"
  by (cases x) (auto dest!: map_of_SomeD depth_member simp del: depth.simps)

lemma merge_step_bound:
  assumes p: "depth processed \<le> B" and m: "vals_le merged B" and r: "\<forall>x \<in> set allRequired. depth x \<le> B"
  shows "vals_le (fst (merge_step processed (merged, allRequired))) B \<and>
         (\<forall>x \<in> set (snd (merge_step processed (merged, allRequired))). depth x \<le> B)"
proof -
  have field: "depth v \<le> B - 1" "1 \<le> B" if "js_prop processed k = Some v" for k v
    using depth_js_prop[OF that] p by simp_all
  define m1 where "m1 = (if truthy_opt (js_prop processed ''properties'')
                then obj_set ''properties''
                       (JObj (spread (case map_of merged ''properties'' of
                                        Some mp \<Rightarrow> own_entries mp | None \<Rightarrow> [])
                                (own_entries (the (js_prop processed ''properties'')))))
                       merged
                else merged)"
  have m1: "vals_le m1 B"
  proof (cases "truthy_opt (js_prop processed ''properties'')")
    case False
    with m show ?thesis by (simp add: m1_def)
  next
    case True
    then obtain pv where pv: "js_prop processed ''properties'' = Some pv" by (cases "js_prop processed ''properties''") auto
    from field[OF pv] have new: "vals_le (own_entries pv) (B - 1)"
      by (intro vals_le_own_entries) simp
    have old: "vals_le (case map_of merged ''properties'' of Some mp \<Rightarrow> own_entries mp | None \<Rightarrow> []) (B - 1)"
    proof (cases "map_of merged ''properties''")
      case None
      then show ?thesis by (simp add: vals_le_def)
    next
      case (Some mp)
      from vals_le_lookup[OF m Some] field(2)[OF pv] have "depth mp \<le> Suc (B - 1)" by simp
      with Some show ?thesis by (simp add: vals_le_own_entries)
    qed
    from depth_vals_le[OF vals_le_spread[OF old new]] field(2)[OF pv]
    have "depth (JObj (spread (case map_of merged ''properties'' of Some mp \<Rightarrow> own_entries mp | None \<Rightarrow> [])
            (own_entries pv))) \<le> B"
      by (simp del: depth.simps)
    with True pv m show ?thesis by (simp add: m1_def vals_le_obj_set del: depth.simps)
  qed
  define ar1 where "ar1 = (case js_prop processed ''required'' of
                   Some (JArr rs) \<Rightarrow> allRequired @ rs
                 | _ \<Rightarrow> allRequired)"
  have ar1: "\<forall>x \<in> set ar1. depth x \<le> B"
  proof (cases "\<exists>rs. js_prop processed ''required'' = Some (JArr rs)")
    case False
    with r show ?thesis by (auto simp: ar1_def split: option.splits json.splits)
  next
    case True
    then obtain rs where rs: "js_prop processed ''required'' = Some (JArr rs)" by blast
    from field(1)[OF rs] have "\<forall>x \<in> set rs. depth x \<le> B"
      using depth_elem[of _ rs] by (fastforce simp del: depth.simps)
    with r rs show ?thesis by (auto simp: ar1_def)
  qed
  define m2 where "m2 = (if \<not> truthy_opt (map_of m1 ''type'') \<and> truthy_opt (js_prop processed ''type'')
                then obj_set ''type'' (the (js_prop processed ''type'')) m1 else m1)"
  have m2: "vals_le m2 B"
  proof (cases "js_prop processed ''type''")
    case None
    with m1 show ?thesis by (simp add: m2_def)
  next
    case (Some t)
    from field(1)[OF Some] have "depth t \<le> B" by simp
    with m1 Some show ?thesis by (simp add: m2_def vals_le_obj_set)
  qed
  define m3 where "m3 = (if truthy_opt (js_prop processed ''description'') \<and> \<not> truthy_opt (map_of m2 ''description'')
                then obj_set ''description'' (the (js_prop processed ''description'')) m2 else m2)"
  have m3: "vals_le m3 B"
  proof (cases "js_prop processed ''description''")
    case None
    with m2 show ?thesis by (simp add: m3_def)
  next
    case (Some t)
    from field(1)[OF Some] have "depth t \<le> B" by simp
    with m2 Some show ?thesis by (simp add: m3_def vals_le_obj_set)
  qed
  have "merge_step processed (merged, allRequired) = (m3, ar1)"
    by (simp add: merge_step_def Let_def m3_def m2_def m1_def ar1_def)
  with m3 ar1 show ?thesis by simp
qed

lemma merge_subs_bound:
  assumes g: "good rec d" and b: "B \<le> d"
  shows "(\<forall>sub \<in> set subs. depth sub \<le> B) \<Longrightarrow> vals_le (fst acc) B \<Longrightarrow>
         (\<forall>x \<in> set (snd acc). depth x \<le> B) \<Longrightarrow>
         (\<exists>merged allRequired. merge_subs rec subs acc = Inr (merged, allRequired) \<and>
             vals_le merged B \<and> (\<forall>x \<in> set allRequired. depth x \<le> B)) \<or>
         merge_subs rec subs acc = Inl TypeError"
proof (induction subs arbitrary: acc)
  case Nil
  then show ?case by (cases acc) simp
next
  case (Cons sub subs)
  from Cons.prems(1) b have "depth sub \<le> d" "depth sub \<le> B" by simp_all
  with g have "(\<exists>r. rec sub = Inr r \<and> depth r \<le> depth sub) \<or> rec sub = Inl TypeError"
    by (simp add: good_def)
  then show ?case
  proof
    assume "rec sub = Inl TypeError"
    then show ?thesis by simp
  next
    assume "\<exists>r. rec sub = Inr r \<and> depth r \<le> depth sub"
    then obtain processed where pr: "rec sub = Inr processed" "depth processed \<le> depth sub" by blast
    show ?thesis
    proof (cases "processed = JNull")
      case True
      with pr show ?thesis by simp
    next
      case False
      obtain merged allRequired where acc: "acc = (merged, allRequired)" by (cases acc)
      from pr \<open>depth sub \<le> B\<close> have "depth processed \<le> B" by simp
      from merge_step_bound[OF this, of merged allRequired] Cons.prems(2,3) acc
      have "vals_le (fst (merge_step processed acc)) B"
        "\<forall>x \<in> set (snd (merge_step processed acc)). depth x \<le> B"
        by simp_all
      from Cons.IH[OF _ this] Cons.prems(1) pr False show ?thesis by simp
    qed
  qed
qed

lemma iterate_bound:
  "iterate v = Inr xs \<Longrightarrow> x \<in> set xs \<Longrightarrow> depth x \<le> depth v - 1"
proof (cases v)
  case (JArr ys)
  assume "iterate v = Inr xs" "x \<in> set xs"
  with JArr have "x \<in> set ys" by simp
  from depth_elem[OF this] JArr show ?thesis by (simp del: depth.simps)
qed auto

lemma iterate_error: "iterate v = Inl e \<Longrightarrow> e = TypeError"
  by (cases v) auto

lemma allOf_node_bound:
  assumes g: "good rec d" and dk: "depth (JObj kvs) \<le> Suc d"
  shows "(\<exists>res. allOf_node rec kvs = Inr res \<and> vals_le res (depth (JObj kvs) - 1)) \<or>
         allOf_node rec kvs = Inl TypeError"
proof (cases "\<exists>subs. map_of kvs ''allOf'' = Some (JArr subs) \<and> subs \<noteq> []")
  case False
  then have "allOf_node rec kvs = Inr kvs"
    by (auto simp: allOf_node_def split: option.splits json.splits)
  with vals_le_object[of kvs] show ?thesis by simp
next
  case True
  then obtain subs where subs: "map_of kvs ''allOf'' = Some (JArr subs)" "subs \<noteq> []" by blast
  define D where "D = depth (JObj kvs)"
  define B where "B = D - 2"
  from subs(1) have "(''allOf'', JArr subs) \<in> set kvs" by (rule map_of_SomeD)
  from depth_member[OF this] have arr: "depth (JArr subs) < D" by (simp add: D_def)
  have "1 \<le> depth (JArr subs)" by simp
  with arr have D2: "2 \<le> D" by simp
  have sub_depth: "\<forall>sub \<in> set subs. depth sub \<le> B"
  proof
    fix sub assume "sub \<in> set subs"
    from depth_elem[OF this] arr show "depth sub \<le> B" by (simp add: B_def del: depth.simps)
  qed
  from dk have Bd: "B \<le> d" by (simp add: B_def D_def)
  have kv: "vals_le kvs (D - 1)" unfolding D_def by (rule vals_le_object)
  from merge_subs_bound[OF g Bd sub_depth, of "([], [])"]
  have "(\<exists>merged allRequired. merge_subs rec subs ([], []) = Inr (merged, allRequired) \<and>
             vals_le merged B \<and> (\<forall>x \<in> set allRequired. depth x \<le> B)) \<or>
         merge_subs rec subs ([], []) = Inl TypeError"
    by (simp add: vals_le_def)
  then show ?thesis
  proof
    assume "merge_subs rec subs ([], []) = Inl TypeError"
    with subs show ?thesis by (simp add: allOf_node_def)
  next
    assume "\<exists>merged allRequired. merge_subs rec subs ([], []) = Inr (merged, allRequired) \<and>
             vals_le merged B \<and> (\<forall>x \<in> set allRequired. depth x \<le> B)"
    then obtain merged allRequired where ms: "merge_subs rec subs ([], []) = Inr (merged, allRequired)"
      and mb: "vals_le merged B" and rb: "\<forall>x \<in> set allRequired. depth x \<le> B" by blast
    define result where "result = spread (obj_del ''allOf'' kvs) merged"
    have res: "vals_le result (D - 1)"
      unfolding result_def
      by (intro vals_le_spread vals_le_obj_del kv vals_le_mono[OF mb]) (simp add: B_def)
    show ?thesis
    proof (cases "allRequired = []")
      case True
      with subs ms res show ?thesis by (simp add: allOf_node_def result_def D_def)
    next
      case False
      define curE where "curE = (if truthy_opt (map_of result ''required'')
                             then iterate (the (map_of result ''required'')) else Inr [])"
      show ?thesis
      proof (cases curE)
        case (Inl e)
        then have "e = TypeError" by (auto simp: curE_def split: if_splits dest: iterate_error)
        with Inl subs ms False show ?thesis
          by (simp add: allOf_node_def result_def[symmetric] curE_def[symmetric])
      next
        case (Inr cur)
        have cur: "\<forall>x \<in> set cur. depth x \<le> B"
        proof
          fix x assume x: "x \<in> set cur"
          with Inr obtain v where v: "map_of result ''required'' = Some v" "iterate v = Inr cur"
            by (cases "map_of result ''required''") (auto simp: curE_def split: if_splits)
          from vals_le_lookup[OF res v(1)] iterate_bound[OF v(2) x] show "depth x \<le> B"
            by (simp add: B_def)
        qed
        with rb have "\<forall>x \<in> set (dedupe [] (cur @ allRequired)). depth x \<le> B"
          using set_dedupe[of "[]" "cur @ allRequired"] by auto
        from depth_JArr_le[OF this] D2 have "depth (JArr (dedupe [] (cur @ allRequired))) \<le> D - 1"
          by (simp add: B_def del: depth.simps)
        from vals_le_obj_set[OF res this] Inr subs ms False show ?thesis
          by (simp add: allOf_node_def result_def[symmetric] curE_def[symmetric] D_def)
      qed
    qed
  qed
qed

lemma mergeAllOf_fuel_good: "good (mergeAllOf_fuel n) n"
proof (induction n)
  case 0
  show ?case
    unfolding good_def
  proof (intro allI impI)
    fix x assume "depth x \<le> 0"
    then show "(\<exists>r. mergeAllOf_fuel 0 x = Inr r \<and> depth r \<le> depth x) \<or> mergeAllOf_fuel 0 x = Inl TypeError"
      by (cases x) simp_all
  qed
next
  case (Suc n)
  have rec: "good (\<lambda>x. mergeAllOf_fuel n x) n" using Suc by simp
  show ?case
    unfolding good_def
  proof (intro allI impI)
    fix x assume dx: "depth x \<le> Suc n"
    show "(\<exists>r. mergeAllOf_fuel (Suc n) x = Inr r \<and> depth r \<le> depth x) \<or>
          mergeAllOf_fuel (Suc n) x = Inl TypeError"
    proof (cases x)
      case (JArr xs)
      with walk_array_good[OF rec, of xs] dx show ?thesis by (simp del: depth.simps)
    next
      case (JObj kvs)
      from allOf_node_bound[OF rec, of kvs] dx JObj
      have "(\<exists>res. allOf_node (\<lambda>x. mergeAllOf_fuel n x) kvs = Inr res \<and> vals_le res (depth (JObj kvs) - 1)) \<or>
         allOf_node (\<lambda>x. mergeAllOf_fuel n x) kvs = Inl TypeError" by simp
      then show ?thesis
      proof
        assume "allOf_node (\<lambda>x. mergeAllOf_fuel n x) kvs = Inl TypeError"
        with JObj show ?thesis by simp
      next
        assume "\<exists>res. allOf_node (\<lambda>x. mergeAllOf_fuel n x) kvs = Inr res \<and> vals_le res (depth (JObj kvs) - 1)"
        then obtain res where res: "allOf_node (\<lambda>x. mergeAllOf_fuel n x) kvs = Inr res"
          "vals_le res (depth (JObj kvs) - 1)" by blast
        from dx JObj have le: "depth (JObj kvs) - 1 \<le> n" by simp
        have "1 \<le> depth (JObj kvs)" by simp
        with walk_values_good[OF rec le, of res] res(2)
        have "(\<exists>r. walk_values (\<lambda>x. mergeAllOf_fuel n x) res = Inr r \<and> depth r \<le> depth (JObj kvs)) \<or>
              walk_values (\<lambda>x. mergeAllOf_fuel n x) res = Inl TypeError"
          by (simp add: vals_le_def del: depth.simps)
        with res(1) JObj show ?thesis by (auto simp del: depth.simps)
      qed
    qed simp_all
  qed
qed

lemma good_mono: "good rec d \<Longrightarrow> d' \<le> d \<Longrightarrow> good rec d'"
  by (simp add: good_def)

lemma mergeAllOf_total: "mergeAllOf s \<noteq> Inl OutOfFuel"
  using mergeAllOf_fuel_good[of "depth s"] by (auto simp: good_def mergeAllOf_def)


lemma best_index_bound:
  "bestIdx < i + length opts \<Longrightarrow> best_index opts i bestIdx bestScore < i + length opts"
proof (induction opts arbitrary: i bestIdx bestScore)
  case Nil
  then show ?case by simp
next
  case (Cons opt opts)
  have a: "best_index opts (Suc i) i s < Suc i + length opts" for s
    by (rule Cons.IH) simp
  have b: "best_index opts (Suc i) bestIdx s < Suc i + length opts" for s
    by (rule Cons.IH) (use Cons.prems in simp)
  from a b show ?case by simp
qed

lemma vals_le_hint:
  "appendDescriptionHint x hint = Inr r \<Longrightarrow> vals_le (own_entries x) m \<Longrightarrow> vals_le (own_entries r) m"
  by (auto simp: appendDescriptionHint_def Let_def vals_le_obj_set split: if_splits)

lemma hint_error: "appendDescriptionHint x hint = Inl e \<Longrightarrow> e = TypeError"
  by (auto simp: appendDescriptionHint_def Let_def split: if_splits)

lemma js_String_error: "js_String v = Inl e \<Longrightarrow> e = TypeError"
  by (auto simp: js_String_def split: if_splits)

lemma js_join_error: "js_join sep xs = Inl e \<Longrightarrow> e = TypeError"
  by (auto simp: js_join_def split: if_splits)

lemma mapE_error: "mapE f xs = Inl e \<Longrightarrow> \<exists>x \<in> set xs. f x = Inl e"
  by (induction xs) (auto split: sum.splits)

lemma enum_loop_error: "enum_loop opts acc = Inl e \<Longrightarrow> e = TypeError"
proof (induction opts arbitrary: acc)
  case Nil
  then show ?case by simp
next
  case (Cons opt rest)
  from Cons.prems have "(\<exists>v. js_String v = Inl e) \<or> (\<exists>vs. mapE js_String vs = Inl e) \<or>
      (\<exists>acc'. enum_loop rest acc' = Inl e)"
    by (auto split: if_splits option.splits sum.splits)
  then show ?case
    using Cons.IH by (auto dest: js_String_error dest!: mapE_error)
qed

lemma tryMergeEnumFromUnion_error: "tryMergeEnumFromUnion opts = Inl e \<Longrightarrow> e = TypeError"
  by (auto simp: tryMergeEnumFromUnion_def split: if_splits sum.splits option.splits
      dest: enum_loop_error)

lemma describe_selected_bound:
  assumes "depth flattened \<le> Suc m"
  shows "(\<exists>sel. describe_selected parentDesc allTypes flattened = Inr sel \<and>
               vals_le (own_entries sel) m) \<or>
         describe_selected parentDesc allTypes flattened = Inl TypeError"
proof -
  define selected0 where
    "selected0 = (if truthy flattened then flattened else JObj [(''type'', JStr ''string'')])"
  have s0: "vals_le (own_entries selected0) m"
  proof (cases "truthy flattened")
    case True
    with assms show ?thesis by (simp add: selected0_def vals_le_own_entries)
  next
    case False
    then show ?thesis by (simp add: selected0_def vals_le_def)
  qed
  define childDesc where "childDesc = description_of selected0"
  define selected1 where "selected1 =
            (if parentDesc \<noteq> [] then
               (if childDesc \<noteq> [] \<and> childDesc \<noteq> parentDesc then
                  JObj (obj_set ''description'' (JStr (parentDesc @ '' ('' @ childDesc @ '')''))
                         (own_entries selected0))
                else if childDesc = [] then
                  JObj (obj_set ''description'' (JStr parentDesc) (own_entries selected0))
                else selected0)
             else selected0)"
  have s1: "vals_le (own_entries selected1) m"
    using s0 by (simp add: selected1_def vals_le_obj_set)
  have eq: "describe_selected parentDesc allTypes flattened =
      (if length allTypes > 1
         then (case js_join '' | '' (dedupe [] allTypes) of
                 Inl e \<Rightarrow> Inl e
               | Inr names \<Rightarrow> appendDescriptionHint selected1 (''Accepts: '' @ names))
         else Inr selected1)"
    unfolding describe_selected_def selected1_def childDesc_def selected0_def Let_def ..
  show ?thesis
  proof (cases "describe_selected parentDesc allTypes flattened")
    case (Inl e)
    with eq have "e = TypeError"
      by (auto split: if_splits sum.splits dest: js_join_error hint_error hint_error[OF sym])
    with Inl show ?thesis by simp
  next
    case (Inr sel)
    with eq have "sel = selected1 \<or> (\<exists>hint. appendDescriptionHint selected1 hint = Inr sel)"
      by (auto split: if_splits sum.splits)
    with s1 have "vals_le (own_entries sel) m" by (auto dest: vals_le_hint)
    with Inr show ?thesis by simp
  qed
qed

lemma union_step_bound:
  assumes g: "good rec d" and md: "m \<le> d" and v: "vals_le result m"
  shows "(\<exists>res. union_step rec unionKey result = Inr res \<and> vals_le res m) \<or>
         union_step rec unionKey result = Inl TypeError"
proof (cases "\<exists>options. map_of result unionKey = Some (JArr options) \<and> options \<noteq> []")
  case False
  then have "union_step rec unionKey result = Inr result"
    by (auto simp: union_step_def split: option.splits json.splits)
  with v show ?thesis by simp
next
  case True
  then obtain options where o: "map_of result unionKey = Some (JArr options)" "options \<noteq> []"
    by blast
  from vals_le_lookup[OF v o(1)] have arr: "depth (JArr options) \<le> m" .
  have "1 \<le> depth (JArr options)" by simp
  with arr have m1: "1 \<le> m" by simp
  consider (err) e where "tryMergeEnumFromUnion options = Inl e"
    | (enum) mergedEnum where "tryMergeEnumFromUnion options = Inr (Some mergedEnum)"
    | (none) "tryMergeEnumFromUnion options = Inr None"
    by (cases "tryMergeEnumFromUnion options") auto
  then show ?thesis
  proof cases
    case err
    with tryMergeEnumFromUnion_error[OF err] o show ?thesis by (simp add: union_step_def)
  next
    case enum
    have "depth (JArr (map JStr mergedEnum)) \<le> m"
      using m1 depth_JArr_le[of "map JStr mergedEnum" 0] by (simp del: depth.simps(1)) 
    then have "vals_le (union_enum unionKey mergedEnum result) m"
      using v by (simp add: union_enum_def Let_def vals_le_obj_set vals_le_obj_del del: depth.simps(1))
    with o enum show ?thesis by (simp add: union_step_def)
  next
    case None: none
    define bestIdx where "bestIdx = best_index options 0 0 (- 1)"
    from o(2) best_index_bound[of 0 0 options "- 1"] have "bestIdx < length options"
      by (simp add: bestIdx_def)
    then have "options ! bestIdx \<in> set options" by simp
    from depth_elem[OF this] arr have od: "depth (options ! bestIdx) \<le> m - 1"
      by (simp del: depth.simps)
    with md have "depth (options ! bestIdx) \<le> d" by simp
    with g have "(\<exists>r. rec (options ! bestIdx) = Inr r \<and> depth r \<le> depth (options ! bestIdx)) \<or>
        rec (options ! bestIdx) = Inl TypeError"
      by (simp add: good_def)
    then show ?thesis
    proof
      assume "rec (options ! bestIdx) = Inl TypeError"
      with o None show ?thesis
        by (simp add: union_step_def union_best_def Let_def bestIdx_def)
    next
      assume "\<exists>r. rec (options ! bestIdx) = Inr r \<and> depth r \<le> depth (options ! bestIdx)"
      then obtain fl where fl: "rec (options ! bestIdx) = Inr fl" "depth fl \<le> depth (options ! bestIdx)"
        by blast
      with od m1 have "depth fl \<le> Suc m" by simp
      from describe_selected_bound[OF this,
          of "description_of (JObj result)"
             "filter truthy (map (\<lambda>opt. snd (scoreSchemaOption opt)) options)"]
      show ?thesis
      proof
        assume "describe_selected (description_of (JObj result))
            (filter truthy (map (\<lambda>opt. snd (scoreSchemaOption opt)) options)) fl = Inl TypeError"
        with fl(1) o None show ?thesis
          by (simp add: union_step_def union_best_def Let_def bestIdx_def)
      next
        assume "\<exists>sel. describe_selected (description_of (JObj result))
            (filter truthy (map (\<lambda>opt. snd (scoreSchemaOption opt)) options)) fl = Inr sel \<and>
            vals_le (own_entries sel) m"
        then obtain sel where "describe_selected (description_of (JObj result))
            (filter truthy (map (\<lambda>opt. snd (scoreSchemaOption opt)) options)) fl = Inr sel"
          "vals_le (own_entries sel) m" by blast
        with v fl(1) o None show ?thesis
          by (simp add: union_step_def union_best_def Let_def bestIdx_def vals_le_spread vals_le_obj_del)
      qed
    qed
  qed
qed

lemma flattenAnyOfOneOf_fuel_good: "good (flattenAnyOfOneOf_fuel n) n"
proof (induction n)
  case 0
  show ?case
    unfolding good_def
  proof (intro allI impI)
    fix x assume "depth x \<le> 0"
    then show "(\<exists>r. flattenAnyOfOneOf_fuel 0 x = Inr r \<and> depth r \<le> depth x) \<or>
               flattenAnyOfOneOf_fuel 0 x = Inl TypeError"
      by (cases x) simp_all
  qed
next
  case (Suc n)
  have rec: "good (\<lambda>x. flattenAnyOfOneOf_fuel n x) n" using Suc by simp
  show ?case
    unfolding good_def
  proof (intro allI impI)
    fix x assume dx: "depth x \<le> Suc n"
    show "(\<exists>r. flattenAnyOfOneOf_fuel (Suc n) x = Inr r \<and> depth r \<le> depth x) \<or>
          flattenAnyOfOneOf_fuel (Suc n) x = Inl TypeError"
    proof (cases x)
      case (JArr xs)
      with walk_array_good[OF rec, of xs] dx show ?thesis by (simp del: depth.simps)
    next
      case (JObj kvs)
      define m where "m = depth (JObj kvs) - 1"
      from dx JObj have le: "m \<le> n" by (simp add: m_def)
      have dm: "depth (JObj kvs) = Suc m" by (simp add: m_def)
      have v0: "vals_le kvs m" unfolding m_def by (rule vals_le_object)
      let ?rec = "\<lambda>x. flattenAnyOfOneOf_fuel n x"
      from union_step_bound[OF rec le v0, of "''anyOf''"] show ?thesis
      proof
        assume "union_step ?rec ''anyOf'' kvs = Inl TypeError"
        with JObj show ?thesis by simp
      next
        assume "\<exists>res. union_step ?rec ''anyOf'' kvs = Inr res \<and> vals_le res m"
        then obtain r1 where r1: "union_step ?rec ''anyOf'' kvs = Inr r1" "vals_le r1 m" by blast
        from union_step_bound[OF rec le r1(2), of "''oneOf''"] show ?thesis
        proof
          assume "union_step ?rec ''oneOf'' r1 = Inl TypeError"
          with JObj r1 show ?thesis by simp
        next
          assume "\<exists>res. union_step ?rec ''oneOf'' r1 = Inr res \<and> vals_le res m"
          then obtain r2 where r2: "union_step ?rec ''oneOf'' r1 = Inr r2" "vals_le r2 m" by blast
          from walk_values_good[OF rec le, of r2] r2(2)
          have "(\<exists>r. walk_values ?rec r2 = Inr r \<and> depth r \<le> Suc m) \<or>
                walk_values ?rec r2 = Inl TypeError"
            by (simp add: vals_le_def)
          with JObj r1 r2 dm show ?thesis by (auto simp del: depth.simps)
        qed
      qed
    qed simp_all
  qed
qed

lemma flattenAnyOfOneOf_total: "flattenAnyOfOneOf s \<noteq> Inl OutOfFuel"
  using flattenAnyOfOneOf_fuel_good[of "depth s"] by (auto simp: good_def flattenAnyOfOneOf_def)

lemma walk_values_error:
  "walk_values rec kvs = Inl e \<Longrightarrow> \<exists>(k, v) \<in> set kvs. is_object v \<and> rec v = Inl e"
proof -
  assume "walk_values rec kvs = Inl e"
  then have "mapE (\<lambda>(k, v). if is_object v
                            then (case rec v of Inl e \<Rightarrow> Inl e | Inr v' \<Rightarrow> Inr (k, v'))
                            else Inr (k, v)) kvs = Inl e"
    by (auto simp: walk_values_def split: sum.splits)
  from mapE_error[OF this] obtain kv where kv: "kv \<in> set kvs"
    "(case kv of (k, v) \<Rightarrow> if is_object v
        then (case rec v of Inl e \<Rightarrow> Inl e | Inr v' \<Rightarrow> Inr (k, v'))
        else Inr (k, v)) = Inl e" by blast
  obtain k v where "kv = (k, v)" by (cases kv)
  with kv have "(k, v) \<in> set kvs" "is_object v" "rec v = Inl e"
    by (auto split: if_splits sum.splits)
  then show ?thesis by blast
qed

lemma walk_error:
  assumes w: "is_walk P N m" and n: "\<And>kvs e. N kvs = Inl e \<Longrightarrow> e = TypeError"
  shows "P t = Inl e \<Longrightarrow> e = TypeError"
proof (induction t rule: measure_induct_rule[where f = m])
  case (less t)
  show ?case
  proof (cases t)
    case (JArr xs)
    with less.prems w have "mapE P xs = Inl e"
      by (auto simp: is_walk_def walk_array_def split: sum.splits)
    from mapE_error[OF this] obtain x where x: "x \<in> set xs" "P x = Inl e" by blast
    from w x(1) have "m x < m (JArr xs)" by (simp add: is_walk_def)
    with JArr less.IH[OF _ x(2)] show ?thesis by simp
  next
    case (JObj kvs)
    with w have eq: "P t = (case N kvs of Inl e \<Rightarrow> Inl e
        | Inr result \<Rightarrow> walk_values P (own_entries result))"
      by (simp add: is_walk_def)
    show ?thesis
    proof (cases "N kvs")
      case (Inl e')
      with eq less.prems n[OF Inl] show ?thesis by simp
    next
      case (Inr r)
      with eq less.prems have "walk_values P (own_entries r) = Inl e" by simp
      from walk_values_error[OF this] obtain k v where
        kv: "(k, v) \<in> set (own_entries r)" "is_object v" "P v = Inl e" by auto
      from w Inr kv(1,2) have "m v < m (JObj kvs)" unfolding is_walk_def by blast
      with JObj less.IH[OF _ kv(3)] show ?thesis by simp
    qed
  next
    case JNull
    with less.prems w show ?thesis by (simp add: is_walk_def)
  next
    case (JBool b)
    with less.prems w show ?thesis by (simp add: is_walk_def)
  next
    case (JNum r)
    with less.prems w show ?thesis by (simp add: is_walk_def)
  next
    case (JStr s)
    with less.prems w show ?thesis by (simp add: is_walk_def)
  qed
qed

lemma node_errors:
  "refs_node kvs = Inl e \<Longrightarrow> e = TypeError"
  "const_node kvs = Inl e \<Longrightarrow> e = TypeError"
  "enum_node kvs = Inl e \<Longrightarrow> e = TypeError"
  "additionalProperties_node kvs = Inl e \<Longrightarrow> e = TypeError"
  "typeArray_node kvs = Inl e \<Longrightarrow> e = TypeError"
  "required_node kvs = Inl e \<Longrightarrow> e = TypeError"
  by (auto simp: refs_node_def const_node_def enum_node_def additionalProperties_node_def
      typeArray_node_def required_node_def Let_def
      split: option.splits json.splits sum.splits if_splits
      dest: hint_error js_String_error js_join_error dest!: mapE_error)

lemma foldE_constraints_error: "foldE constraint_step r cs = Inl e \<Longrightarrow> e = TypeError"
proof (induction cs arbitrary: r)
  case Nil
  then show ?case by simp
next
  case (Cons c cs)
  from Cons.prems have "constraint_step r c = Inl e \<or> (\<exists>r1. foldE constraint_step r1 cs = Inl e)"
    by (auto split: sum.splits)
  then show ?case
  proof
    assume "constraint_step r c = Inl e"
    then show ?thesis
      by (auto simp: constraint_step_def split: option.splits sum.splits
          dest: hint_error js_String_error)
  next
    assume "\<exists>r1. foldE constraint_step r1 cs = Inl e"
    then obtain r1 where "foldE constraint_step r1 cs = Inl e" by blast
    then show ?thesis by (rule Cons.IH)
  qed
qed

lemma constraints_node_error: "constraints_node kvs = Inl e \<Longrightarrow> e = TypeError"
  unfolding constraints_node_def by (rule foldE_constraints_error)

lemma phase_errors:
  "convertRefsToHints t = Inl e \<Longrightarrow> e = TypeError"
  "convertConstToEnum t = Inl e \<Longrightarrow> e = TypeError"
  "addEnumHints t = Inl e \<Longrightarrow> e = TypeError"
  "addAdditionalPropertiesHints t = Inl e \<Longrightarrow> e = TypeError"
  "moveConstraintsToDescription t = Inl e \<Longrightarrow> e = TypeError"
  "flattenTypeArrays t = Inl e \<Longrightarrow> e = TypeError"
  "cleanupRequiredFields t = Inl e \<Longrightarrow> e = TypeError"
proof -
  show "convertRefsToHints t = Inl e \<Longrightarrow> e = TypeError"
    using walk_error[OF is_walk_phases(1)] node_errors(1) by blast
  show "convertConstToEnum t = Inl e \<Longrightarrow> e = TypeError"
    using walk_error[OF is_walk_phases(2)] node_errors(2) by blast
  show "addEnumHints t = Inl e \<Longrightarrow> e = TypeError"
    using walk_error[OF is_walk_phases(3)] node_errors(3) by blast
  show "addAdditionalPropertiesHints t = Inl e \<Longrightarrow> e = TypeError"
    using walk_error[OF is_walk_phases(4)] node_errors(4) by blast
  show "moveConstraintsToDescription t = Inl e \<Longrightarrow> e = TypeError"
    using walk_error[OF is_walk_phases(5)] constraints_node_error by blast
  show "flattenTypeArrays t = Inl e \<Longrightarrow> e = TypeError"
    using walk_error[OF is_walk_phases(6)] node_errors(5) by blast
  show "cleanupRequiredFields t = Inl e \<Longrightarrow> e = TypeError"
    using walk_error[OF is_walk_phases(7)] node_errors(6) by blast
qed

lemma cleanSchema_total: "cleanSchema s \<noteq> Inl OutOfFuel"
proof
  assume a: "cleanSchema s = Inl OutOfFuel"
  then have "(\<exists>t. convertRefsToHints t = Inl OutOfFuel) \<or> (\<exists>t. convertConstToEnum t = Inl OutOfFuel) \<or>
      (\<exists>t. addEnumHints t = Inl OutOfFuel) \<or> (\<exists>t. addAdditionalPropertiesHints t = Inl OutOfFuel) \<or>
      (\<exists>t. moveConstraintsToDescription t = Inl OutOfFuel) \<or> (\<exists>t. mergeAllOf t = Inl OutOfFuel) \<or>
      (\<exists>t. flattenAnyOfOneOf t = Inl OutOfFuel) \<or> (\<exists>t. flattenTypeArrays t = Inl OutOfFuel) \<or>
      (\<exists>t. cleanupRequiredFields t = Inl OutOfFuel)"
    by (auto simp: cleanSchema_def bindE_def split: if_splits sum.splits)
  then show False
    using phase_errors mergeAllOf_total flattenAnyOfOneOf_total by (metis error.distinct(1))
qed

lemma mapE_transformTool_total: "mapE transformTool ts \<noteq> Inl OutOfFuel"
proof (induction ts)
  case Nil
  show ?case by simp
next
  case (Cons t ts)
  have "transformTool t \<noteq> Inl OutOfFuel"
    using cleanSchema_total by (auto simp: transformTool_def split: sum.splits)
  with Cons show ?case by (auto split: sum.splits)
qed

lemma transformRequest_total: "transformRequest h req \<noteq> Inl OutOfFuel"
  using mapE_transformTool_total
  by (auto simp: transformRequest_def transformTools_def Let_def split: option.splits sum.splits if_splits)

end
